theory Spec2Isabelle
  imports Main "HOL-Library.Word"
begin

unbundle bit_operations_syntax

section \<open>The key-combination detector of drivers/input/keycombo.c\<close>

text \<open>
  The driver watches a configured set of keys. A combination is complete when every key of
  the down list is pressed and no key of the up list is pressed; completing it queues the
  delayed work \<open>key_down_work\<close>, breaking it cancels that work or, when it is too late to
  cancel, queues \<open>key_up_work\<close>.

  The embedding follows the C source function by function. The fields of
  \<open>struct keycombo_state\<close> are the fields of a record, C \<open>int\<close> and \<open>unsigned int\<close> are
  32-bit words (the kernel is built with wrapping signed arithmetic), and the three bitmaps
  of \<open>KEY_CNT\<close> bits are words of that length. Every function that calls into the kernel
  returns, next to the new state, the list of those calls in program order. Logging
  (\<open>pr_debug\<close>, \<open>KEY_LOGI\<close>, \<open>KEY_LOGE\<close>) has no effect on the state and is left out.
\<close>

subsection \<open>Constants of the input layer\<close>

text \<open>
  Modelled from the spec: the valid key-code range of section 3 (\<open>0..KEY_MAX\<close>) and the
  event type of key events. The values are those of \<open>include/uapi/linux/input.h\<close>, which
  is not among the sources: \<open>EV_KEY = 0x01\<close>, \<open>KEY_MAX = 0x2ff\<close>, \<open>KEY_CNT = KEY_MAX + 1\<close>.
\<close>

definition EV_KEY :: "32 word" where
  "EV_KEY = 1"

definition KEY_MAX :: nat where
  "KEY_MAX = 767"

definition KEY_CNT :: nat where
  "KEY_CNT = KEY_MAX + 1"

type_synonym bitmap = "768 word"

text \<open>The bitmap accessors \<open>test_bit\<close>, \<open>__set_bit\<close> and \<open>__change_bit\<close>.\<close>

definition test_bit :: "nat \<Rightarrow> bitmap \<Rightarrow> bool" where
  "test_bit nr addr = bit addr nr"

definition set_bit_nr :: "nat \<Rightarrow> bitmap \<Rightarrow> bitmap" where
  "set_bit_nr nr addr = set_bit nr addr"

definition change_bit :: "nat \<Rightarrow> bitmap \<Rightarrow> bitmap" where
  "change_bit nr addr = flip_bit nr addr"

subsection \<open>Work items, wake sources and the ordered work queue\<close>

datatype work = Key_down_work | Key_up_work

datatype wake_source = Combo_held | Combo_up

text \<open>The calls a function makes into the kernel and into the configured callbacks.\<close>

datatype kcall =
    Spin_lock_irqsave
  | Spin_unlock_irqrestore
  | Pm_stay_awake wake_source
  | Pm_relax wake_source
  | Queue_delayed_work
  | Cancel_delayed_work
  | Queue_work
  | Call_key_down_fn
  | Call_key_up_fn
  | Kzalloc_handle
  | Kfree_handle
  | Input_register_handle
  | Input_unregister_handle
  | Input_open_device

text \<open>
  Modelled from the spec: the deferred execution adapter of section 4.3, which is the
  kernel's ordered work queue and is not among the sources. One worker executes the queued
  work items strictly in submission order. \<open>timer\<close> says that the delay of the delayed
  work \<open>key_down_work\<close> is running, \<open>worklist\<close> holds the submitted items that have not
  begun executing, \<open>current_work\<close> is the item the worker has taken and is executing.
  A work item is pending while its timer runs or it is on the work list; a pending item is
  never submitted a second time.
\<close>

record workqueue =
  timer :: bool
  worklist :: "work list"
  current_work :: "work option"

definition delayed_work_pending :: "workqueue \<Rightarrow> bool" where
  "delayed_work_pending q = (timer q \<or> Key_down_work \<in> set (worklist q))"

text \<open>
  Modelled from the spec: \<open>queue_delayed_work\<close> on \<open>key_down_work\<close>, the
  \<open>schedule_delayed\<close> of section 4.3. It answers false and does nothing when the work is
  pending already; otherwise the work is submitted at once when the delay is zero, and its
  timer is started when it is not.
\<close>

definition queue_delayed_work :: "workqueue \<Rightarrow> nat \<Rightarrow> bool \<times> workqueue" where
  "queue_delayed_work q delay =
     (if delayed_work_pending q then (False, q)
      else if delay = 0 then (True, q\<lparr>worklist := worklist q @ [Key_down_work]\<rparr>)
      else (True, q\<lparr>timer := True\<rparr>))"

text \<open>
  Modelled from the spec: \<open>cancel_delayed_work\<close> on \<open>key_down_work\<close>, the \<open>cancel\<close> of
  section 4.3. It answers true iff the work was pending, that is, iff it had been scheduled
  and had not yet begun executing; the work is then taken back, from its timer or from the
  work list.
\<close>

definition cancel_delayed_work :: "workqueue \<Rightarrow> bool \<times> workqueue" where
  "cancel_delayed_work q =
     (if timer q then (True, q\<lparr>timer := False\<rparr>)
      else if Key_down_work \<in> set (worklist q)
        then (True, q\<lparr>worklist := removeAll Key_down_work (worklist q)\<rparr>)
      else (False, q))"

text \<open>
  Modelled from the spec: \<open>queue_work\<close> on \<open>key_up_work\<close>, the \<open>schedule_immediate\<close> of
  section 4.3. The work is submitted at the end of the work list unless it is pending
  already.
\<close>

definition queue_work :: "workqueue \<Rightarrow> bool \<times> workqueue" where
  "queue_work q =
     (if Key_up_work \<in> set (worklist q) then (False, q)
      else (True, q\<lparr>worklist := worklist q @ [Key_up_work]\<rparr>))"

subsection \<open>The state\<close>

text \<open>
  \<open>struct keycombo_state\<close>. The two callbacks are opaque to the driver, which only tests
  them against \<open>NULL\<close>: a callback field is true when the pointer is set. \<open>wq\<close> stands for
  the work queue together with the two work items embedded in the structure; the spin lock
  and the input handler carry no data of the combination and have no field.

  Modelled from the spec: the wake guards of section 3. A wake source is true while it is
  active; \<open>__pm_stay_awake\<close> activates it and \<open>__pm_relax\<close> deactivates it.
\<close>

record keycombo_state =
  keybit :: bitmap
  upbit :: bitmap
  key :: bitmap
  wq :: workqueue
  key_down_target :: "32 word"
  key_down :: "32 word"
  key_up :: "32 word"
  delay :: nat
  key_up_fn :: bool
  key_down_fn :: bool
  priv :: nat
  key_is_down :: "32 word"
  combo_held_wake_source :: bool
  combo_up_wake_source :: bool

subsection \<open>The work functions\<close>

definition do_key_down :: "keycombo_state \<Rightarrow> keycombo_state \<times> kcall list" where
  "do_key_down state =
     (if key_down_fn state then (state, [Call_key_down_fn]) else (state, []))"

definition do_key_up :: "keycombo_state \<Rightarrow> keycombo_state \<times> kcall list" where
  "do_key_up state =
     (state\<lparr>combo_up_wake_source := False\<rparr>,
      (if key_up_fn state then [Call_key_up_fn] else []) @ [Pm_relax Combo_up])"

subsection \<open>The event handler\<close>

text \<open>
  \<open>count_key\<close> is lines 90 to 100: the counter of the role of \<open>code\<close> goes up on a press
  and down on a release.
\<close>

definition count_key :: "keycombo_state \<Rightarrow> nat \<Rightarrow> 32 word \<Rightarrow> keycombo_state" where
  "count_key state code val =
     (if test_bit code (upbit state) then
        (if val \<noteq> 0 then state\<lparr>key_up := key_up state + 1\<rparr>
         else state\<lparr>key_up := key_up state - 1\<rparr>)
      else
        (if val \<noteq> 0 then state\<lparr>key_down := key_down state + 1\<rparr>
         else state\<lparr>key_down := key_down state - 1\<rparr>))"

text \<open>\<open>combo_transition\<close> is lines 101 to 114, executed with the lock held.\<close>

definition combo_transition :: "keycombo_state \<Rightarrow> keycombo_state \<times> kcall list" where
  "combo_transition state =
     (if key_down state = key_down_target state \<and> key_up state = 0 then
        (state\<lparr>combo_held_wake_source := True, key_is_down := 1,
               wq := snd (queue_delayed_work (wq state) (delay state))\<rparr>,
         [Pm_stay_awake Combo_held, Queue_delayed_work])
      else if key_is_down state \<noteq> 0 then
        (if \<not> fst (cancel_delayed_work (wq state)) then
           (state\<lparr>combo_up_wake_source := True,
                  wq := snd (queue_work (snd (cancel_delayed_work (wq state)))),
                  combo_held_wake_source := False, key_is_down := 0\<rparr>,
            [Cancel_delayed_work, Pm_stay_awake Combo_up, Queue_work, Pm_relax Combo_held])
         else
           (state\<lparr>wq := snd (cancel_delayed_work (wq state)),
                  combo_held_wake_source := False, key_is_down := 0\<rparr>,
            [Cancel_delayed_work, Pm_relax Combo_held]))
      else (state, []))"

definition keycombo_event ::
  "keycombo_state \<Rightarrow> 32 word \<Rightarrow> 32 word \<Rightarrow> 32 word \<Rightarrow> keycombo_state \<times> kcall list" where
  "keycombo_event state type code val =
     (if type \<noteq> EV_KEY then (state, [])
      else if KEY_MAX \<le> unat code then (state, [])
      else if \<not> test_bit (unat code) (keybit state) then (state, [])
      else if (\<not> test_bit (unat code) (key state)) = (val = 0) then
        (state, [Spin_lock_irqsave, Spin_unlock_irqrestore])
      else
        (let counted = count_key (state\<lparr>key := change_bit (unat code) (key state)\<rparr>)
                         (unat code) val;
             (state', calls) = combo_transition counted
         in (state', [Spin_lock_irqsave] @ calls @ [Spin_unlock_irqrestore])))"

subsection \<open>The device-attach predicate\<close>

definition ENOMEM :: "32 word" where
  "ENOMEM = 12"

definition ENODEV :: "32 word" where
  "ENODEV = 19"

text \<open>The part of \<open>struct input_dev\<close> that \<open>keycombo_connect\<close> reads.\<close>

record input_dev =
  dev_keybit :: bitmap

text \<open>
  What the kernel answers during one call of \<open>keycombo_connect\<close>: whether \<open>kzalloc\<close>
  returns memory, and the return values of \<open>input_register_handle\<close> and
  \<open>input_open_device\<close>.
\<close>

record connect_env =
  kzalloc_handle :: bool
  input_register_handle :: "32 word"
  input_open_device :: "32 word"

text \<open>
  The loop of lines 128 to 131, started at \<open>i\<close>: the value of \<open>i\<close> when the loop is left.
\<close>

function connect_loop :: "bitmap \<Rightarrow> bitmap \<Rightarrow> nat \<Rightarrow> nat" where
  "connect_loop state_keybit device_keybit i =
     (if i < KEY_MAX then
        (if test_bit i state_keybit \<and> test_bit i device_keybit then i
         else connect_loop state_keybit device_keybit (Suc i))
      else i)"
  by pat_completeness auto
termination
  by (relation "measure (\<lambda>(state_keybit, device_keybit, i). KEY_MAX - i)") auto

declare connect_loop.simps [simp del]

definition keycombo_connect ::
  "connect_env \<Rightarrow> keycombo_state \<Rightarrow> input_dev \<Rightarrow> 32 word \<times> kcall list" where
  "keycombo_connect env state dev =
     (if connect_loop (keybit state) (dev_keybit dev) 0 = KEY_MAX then (- ENODEV, [])
      else if \<not> kzalloc_handle env then (- ENOMEM, [Kzalloc_handle])
      else if input_register_handle env \<noteq> 0 then
        (input_register_handle env, [Kzalloc_handle, Input_register_handle, Kfree_handle])
      else if input_open_device env \<noteq> 0 then
        (input_open_device env,
         [Kzalloc_handle, Input_register_handle, Input_open_device,
          Input_unregister_handle, Kfree_handle])
      else (0, [Kzalloc_handle, Input_register_handle, Input_open_device]))"

subsection \<open>Construction\<close>

text \<open>
  \<open>struct keycombo_platform_data\<close> is declared in \<open>linux/keycombo.h\<close>, which is not among
  the sources; the fields are those \<open>keycombo_probe\<close> and \<open>keycombo_parse_dt\<close> use. A key
  list is a pointer: \<open>None\<close> is \<open>NULL\<close>, and \<open>Some cells\<close> gives the cells of the array it
  points to, up to the end of that array.
\<close>

record keycombo_platform_data =
  pd_key_down_fn :: bool
  pd_key_up_fn :: bool
  pd_priv :: nat
  pd_key_down_delay :: "32 word"
  pd_keys_up :: "32 word list option"
  pd_keys_down :: "32 word list option"

text \<open>
  A failed construction returns a negative error number. \<open>Bad_access\<close> stands for a read
  through a pointer that refers to no cell (past the end of a key array that has no
  terminating zero, or through a \<open>NULL\<close> down list): the source does not define what
  happens.
\<close>

datatype error = Errno "32 word" | Bad_access

text \<open>
  The device tree is read by \<open>keycombo_parse_dt\<close> through helpers of the kernel; here the
  outcome of that call is given by the environment, as the return value and the platform
  data it has filled in.

  \<open>stray_keybit\<close> and \<open>stray_upbit\<close> are for a key that is negative as a C \<open>int\<close>. Such a
  key is below \<open>KEY_MAX\<close> in the signed tests of lines 302 and 310, so the loops treat it
  like a valid code and call \<open>__set_bit\<close> with a negative index, which C leaves undefined:
  the word that is or-ed with the mask is the first word of the bitmap or lies before it,
  and the shift that makes the mask has a negative count. The environment gives the bits
  such a call sets: \<open>stray_keybit key\<close> those that \<open>__set_bit(key, state->keybit)\<close> sets
  in \<open>keybit\<close>, and \<open>stray_upbit key\<close> those that \<open>__set_bit(key, state->upbit)\<close> sets in
  \<open>keybit\<close>, which is declared before \<open>upbit\<close>, and in \<open>upbit\<close>. A call that writes
  elsewhere sets none; the fields declared after the bitmaps are not reached.
\<close>

type_synonym device_node = "string \<Rightarrow> 32 word list option"

record platform_device =
  of_node :: "device_node option"
  platform_data :: "keycombo_platform_data option"

record probe_env =
  kzalloc_pdata :: bool
  keycombo_parse_dt :: "device_node \<Rightarrow> keycombo_platform_data \<Rightarrow> 32 word \<times> keycombo_platform_data"
  kzalloc_state :: bool
  stray_keybit :: "32 word \<Rightarrow> bitmap"
  stray_upbit :: "32 word \<Rightarrow> bitmap \<times> bitmap"
  alloc_ordered_workqueue :: bool
  msecs_to_jiffies :: "32 word \<Rightarrow> nat"
  input_register_handler :: "32 word"

text \<open>
  The loop of lines 301 to 306 over the down list, \<open>key\<close> being a C \<open>int\<close>: a key at or
  beyond \<open>KEY_MAX\<close> is passed over, every other key is counted and its bit set.
\<close>

fun scan_keys_down ::
  "probe_env \<Rightarrow> 32 word list \<Rightarrow> keycombo_state \<Rightarrow> error + keycombo_state" where
  "scan_keys_down env [] state = Inl Bad_access"
| "scan_keys_down env (k # keyp) state =
     (if k = 0 then Inr state
      else if int KEY_MAX \<le> sint k then scan_keys_down env keyp state
      else if sint k < 0 then
        scan_keys_down env keyp
          (state\<lparr>key_down_target := key_down_target state + 1,
                 keybit := keybit state OR stray_keybit env k\<rparr>)
      else
        scan_keys_down env keyp
          (state\<lparr>key_down_target := key_down_target state + 1,
                 keybit := set_bit_nr (nat (sint k)) (keybit state)\<rparr>))"

text \<open>The loop of lines 309 to 314 over the up list.\<close>

fun scan_keys_up ::
  "probe_env \<Rightarrow> 32 word list \<Rightarrow> keycombo_state \<Rightarrow> error + keycombo_state" where
  "scan_keys_up env [] state = Inl Bad_access"
| "scan_keys_up env (k # keyp) state =
     (if k = 0 then Inr state
      else if int KEY_MAX \<le> sint k then scan_keys_up env keyp state
      else if sint k < 0 then
        scan_keys_up env keyp
          (state\<lparr>keybit := keybit state OR stray_keybit env k OR fst (stray_upbit env k),
                 upbit := upbit state OR snd (stray_upbit env k)\<rparr>)
      else
        scan_keys_up env keyp
          (state\<lparr>keybit := set_bit_nr (nat (sint k)) (keybit state),
                 upbit := set_bit_nr (nat (sint k)) (upbit state)\<rparr>))"

text \<open>Memory as \<open>kzalloc\<close> returns it: every field zero.\<close>

definition zeroed_pdata :: keycombo_platform_data where
  "zeroed_pdata =
     \<lparr>pd_key_down_fn = False, pd_key_up_fn = False, pd_priv = 0, pd_key_down_delay = 0,
      pd_keys_up = None, pd_keys_down = None\<rparr>"

definition zeroed_state :: keycombo_state where
  "zeroed_state =
     \<lparr>keybit = 0, upbit = 0, key = 0,
      wq = \<lparr>timer = False, worklist = [], current_work = None\<rparr>,
      key_down_target = 0, key_down = 0, key_up = 0, delay = 0,
      key_up_fn = False, key_down_fn = False, priv = 0, key_is_down = 0,
      combo_held_wake_source = False, combo_up_wake_source = False\<rparr>"

text \<open>Lines 270 to 290: where the platform data come from.\<close>

definition probe_pdata :: "probe_env \<Rightarrow> platform_device \<Rightarrow> error + keycombo_platform_data" where
  "probe_pdata env pdev =
     (case of_node pdev of
        Some node \<Rightarrow>
          if \<not> kzalloc_pdata env then Inl (Errno (- ENOMEM))
          else if sint (fst (keycombo_parse_dt env node zeroed_pdata)) < 0
            then Inl (Errno (- ENOMEM))
          else Inr (snd (keycombo_parse_dt env node zeroed_pdata))
      | None \<Rightarrow>
          (case platform_data pdev of
             None \<Rightarrow> Inl (Errno (- ENOMEM))
           | Some pdata \<Rightarrow> Inr pdata))"

text \<open>Lines 300 to 315: the two key lists are entered into the bitmaps.\<close>

definition probe_keys ::
  "probe_env \<Rightarrow> keycombo_platform_data \<Rightarrow> keycombo_state \<Rightarrow> error + keycombo_state" where
  "probe_keys env pdata state =
     (case pd_keys_down pdata of
        None \<Rightarrow> Inl Bad_access
      | Some keys_down \<Rightarrow>
          (case scan_keys_down env keys_down state of
             Inl e \<Rightarrow> Inl e
           | Inr state' \<Rightarrow>
               (case pd_keys_up pdata of
                  None \<Rightarrow> Inr state'
                | Some keys_up \<Rightarrow> scan_keys_up env keys_up state')))"

text \<open>
  \<open>keycombo_probe\<close>: on success the new state, which the driver keeps as the driver data
  of the platform device; on failure nothing is kept.
\<close>

definition keycombo_probe :: "probe_env \<Rightarrow> platform_device \<Rightarrow> error + keycombo_state" where
  "keycombo_probe env pdev =
     (case probe_pdata env pdev of
        Inl e \<Rightarrow> Inl e
      | Inr pdata \<Rightarrow>
          if \<not> kzalloc_state env then Inl (Errno (- ENOMEM))
          else
            (case probe_keys env pdata zeroed_state of
               Inl e \<Rightarrow> Inl e
             | Inr state \<Rightarrow>
                 if \<not> alloc_ordered_workqueue env then Inl (Errno (- ENOMEM))
                 else if input_register_handler env \<noteq> 0
                   then Inl (Errno (input_register_handler env))
                 else
                   Inr (state\<lparr>priv := pd_priv pdata,
                              key_down_fn := pd_key_down_fn pdata,
                              key_up_fn := pd_key_up_fn pdata,
                              delay := msecs_to_jiffies env (pd_key_down_delay pdata)\<rparr>)))"

subsection \<open>The driver at work\<close>

text \<open>
  Between two events the timer of the delayed work may expire and the worker of the ordered
  queue may take the next work item and execute it. \<open>executed\<close> lists the work functions
  the worker has executed, \<open>calls\<close> every call made by the event handler and by the work
  functions, both in order of time.
\<close>

datatype action =
    Event "32 word" "32 word" "32 word"
  | Timer_expires
  | Worker_takes
  | Worker_runs

record system =
  st :: keycombo_state
  executed :: "work list"
  calls :: "kcall list"

text \<open>
  Modelled from the spec: the worker of section 4.3 and section 5. The expiry of the timer
  submits the delayed work. The worker, when idle, takes the first item of the work list,
  which is then no longer pending, and executes its function (\<open>do_key_down\<close> for
  \<open>key_down_work\<close>, \<open>do_key_up\<close> for \<open>key_up_work\<close>) outside the lock of the event
  handler; the handler itself runs under the lock, as one step. A step that cannot happen
  in the current state leaves it as it is.
\<close>

definition timer_expires :: "workqueue \<Rightarrow> workqueue" where
  "timer_expires q =
     (if timer q then q\<lparr>timer := False, worklist := worklist q @ [Key_down_work]\<rparr> else q)"

definition worker_takes :: "workqueue \<Rightarrow> workqueue" where
  "worker_takes q =
     (case (current_work q, worklist q) of
        (None, w # ws) \<Rightarrow> q\<lparr>worklist := ws, current_work := Some w\<rparr>
      | _ \<Rightarrow> q)"

definition run_work :: "work \<Rightarrow> keycombo_state \<Rightarrow> keycombo_state \<times> kcall list" where
  "run_work w state = (case w of Key_down_work \<Rightarrow> do_key_down state | Key_up_work \<Rightarrow> do_key_up state)"

fun step :: "system \<Rightarrow> action \<Rightarrow> system" where
  "step sys (Event type code val) =
     sys\<lparr>st := fst (keycombo_event (st sys) type code val),
         calls := calls sys @ snd (keycombo_event (st sys) type code val)\<rparr>"
| "step sys Timer_expires =
     sys\<lparr>st := (st sys)\<lparr>wq := timer_expires (wq (st sys))\<rparr>\<rparr>"
| "step sys Worker_takes =
     sys\<lparr>st := (st sys)\<lparr>wq := worker_takes (wq (st sys))\<rparr>\<rparr>"
| "step sys Worker_runs =
     (case current_work (wq (st sys)) of
        None \<Rightarrow> sys
      | Some w \<Rightarrow>
          sys\<lparr>st := (fst (run_work w (st sys)))
                     \<lparr>wq := (wq (fst (run_work w (st sys))))\<lparr>current_work := None\<rparr>\<rparr>,
              executed := executed sys @ [w],
              calls := calls sys @ snd (run_work w (st sys))\<rparr>)"

definition run :: "system \<Rightarrow> action list \<Rightarrow> system" where
  "run sys actions = foldl step sys actions"

text \<open>The system right after a successful \<open>keycombo_probe\<close>.\<close>

definition boot :: "keycombo_state \<Rightarrow> system" where
  "boot state = \<lparr>st = state, executed = [], calls = []\<rparr>"

subsection \<open>Pressed keys, key lists and the order of work\<close>

text \<open>
  The keys of the down set are the tracked keys that are not up keys, the keys of the up
  set are those of \<open>upbit\<close>. \<open>down_pressed\<close> and \<open>up_pressed\<close> count the keys of each set
  whose bit in \<open>key\<close> is set.
\<close>

definition down_pressed :: "keycombo_state \<Rightarrow> nat" where
  "down_pressed state =
     length (filter (\<lambda>c. test_bit c (keybit state) \<and> \<not> test_bit c (upbit state) \<and>
                          test_bit c (key state)) [0..<KEY_CNT])"

definition up_pressed :: "keycombo_state \<Rightarrow> nat" where
  "up_pressed state =
     length (filter (\<lambda>c. test_bit c (upbit state) \<and> test_bit c (key state)) [0..<KEY_CNT])"

text \<open>The condition of line 101: the combination is complete.\<close>

definition combo_complete :: "keycombo_state \<Rightarrow> bool" where
  "combo_complete state = (key_down state = key_down_target state \<and> key_up state = 0)"

text \<open>
  The state before the first event: no key pressed, both counters and the phase zero, no
  work pending or executing, no wake source active. The configuration is left open.
\<close>

definition all_zero :: "keycombo_state \<Rightarrow> bool" where
  "all_zero state =
     (key state = 0 \<and> key_down state = 0 \<and> key_up state = 0 \<and> key_is_down state = 0 \<and>
      wq state = \<lparr>timer = False, worklist = [], current_work = None\<rparr> \<and>
      \<not> combo_held_wake_source state \<and> \<not> combo_up_wake_source state)"

text \<open>A list alternates between \<open>a\<close> and \<open>b\<close>, and starts with \<open>a\<close>.\<close>

fun alternates :: "'a \<Rightarrow> 'a \<Rightarrow> 'a list \<Rightarrow> bool" where
  "alternates a b [] = True"
| "alternates a b (x # xs) = (x = a \<and> alternates b a xs)"

text \<open>The invocations of the two callbacks among the calls.\<close>

definition callbacks :: "kcall list \<Rightarrow> kcall list" where
  "callbacks cs = filter (\<lambda>c. c = Call_key_down_fn \<or> c = Call_key_up_fn) cs"

text \<open>
  A key array as \<open>keycombo_probe\<close> expects it: a zero terminates it, and no cell before
  the terminator is negative as a C \<open>int\<close>, so that no bit is set outside the key range.
  \<open>listed\<close> gives the codes an array enters into the bitmaps as keys: the cells before the
  terminator that are not negative and below \<open>KEY_MAX\<close>.
\<close>

definition terminated :: "32 word list \<Rightarrow> bool" where
  "terminated ks = (0 \<in> set ks \<and> list_all (\<lambda>k. 0 \<le> sint k) (takeWhile (\<lambda>k. k \<noteq> 0) ks))"

definition listed :: "32 word list \<Rightarrow> nat list" where
  "listed ks =
     map (\<lambda>k. nat (sint k))
       (filter (\<lambda>k. 0 \<le> sint k \<and> sint k < int KEY_MAX) (takeWhile (\<lambda>k. k \<noteq> 0) ks))"

definition listed_down :: "keycombo_platform_data \<Rightarrow> nat list" where
  "listed_down pdata = (case pd_keys_down pdata of None \<Rightarrow> [] | Some ks \<Rightarrow> listed ks)"

definition listed_up :: "keycombo_platform_data \<Rightarrow> nat list" where
  "listed_up pdata = (case pd_keys_up pdata of None \<Rightarrow> [] | Some ks \<Rightarrow> listed ks)"

text \<open>Platform data with a proper down list and with no up list or a proper one.\<close>

definition key_lists_ok :: "keycombo_platform_data \<Rightarrow> bool" where
  "key_lists_ok pdata =
     ((case pd_keys_down pdata of None \<Rightarrow> False | Some ks \<Rightarrow> terminated ks) \<and>
      (case pd_keys_up pdata of None \<Rightarrow> True | Some ks \<Rightarrow> terminated ks))"

text \<open>
  The work functions still to be executed, in the order in which the worker will execute them
  if nothing is cancelled: the item in execution, the work list, and the delayed work whose
  timer is running.
\<close>

definition outstanding :: "workqueue \<Rightarrow> work list" where
  "outstanding q =
     (case current_work q of None \<Rightarrow> [] | Some w \<Rightarrow> [w]) @ worklist q @
     (if timer q then [Key_down_work] else [])"

text \<open>
  The invariant behind the order of the callbacks, for the executed work functions \<open>ex\<close>,
  the queue \<open>q\<close> and the phase \<open>down\<close>: the executed and the outstanding work functions
  together alternate, the phase says whether the last of them is \<open>do_key_down\<close>, no work
  item is pending twice, and the delayed work is pending only in the phase \<open>down\<close>.
\<close>

definition queue_ok :: "work list \<Rightarrow> workqueue \<Rightarrow> bool \<Rightarrow> bool" where
  "queue_ok ex q down =
     (alternates Key_down_work Key_up_work (ex @ outstanding q) \<and>
      down = odd (length (ex @ outstanding q)) \<and>
      distinct (worklist q) \<and>
      \<not> (timer q \<and> Key_down_work \<in> set (worklist q)) \<and>
      (down \<or> \<not> delayed_work_pending q))"

definition pipeline_ok :: "system \<Rightarrow> bool" where
  "pipeline_ok sys =
     (queue_ok (executed sys) (wq (st sys)) (key_is_down (st sys) \<noteq> 0) \<and>
      (key_is_down (st sys) = 0 \<or> combo_complete (st sys)))"

text \<open>The callback a work function invokes, if it is set.\<close>

definition callback_of :: "work \<Rightarrow> kcall" where
  "callback_of w = (case w of Key_down_work \<Rightarrow> Call_key_down_fn | Key_up_work \<Rightarrow> Call_key_up_fn)"

subsection \<open>Worked example\<close>

text \<open>
  The combination of the keys 114 and 116, to be pressed together while the key 115 is not
  pressed, with both callbacks set: first as \<open>keycombo_probe\<close> leaves the state, then
  with both keys held and \<open>do_key_down\<close> taken by the worker.
\<close>

definition example_state :: keycombo_state where
  "example_state =
     zeroed_state\<lparr>keybit := set_bit_nr 116 (set_bit_nr 115 (set_bit_nr 114 0)),
                  upbit := set_bit_nr 115 0,
                  key_down_target := 2, delay := 50,
                  key_down_fn := True, key_up_fn := True\<rparr>"

definition example_held :: keycombo_state where
  "example_held =
     example_state\<lparr>key := set_bit_nr 116 (set_bit_nr 114 0),
                   wq := \<lparr>timer = False, worklist = [], current_work = Some Key_down_work\<rparr>,
                   key_down := 2, key_is_down := 1, combo_held_wake_source := True\<rparr>"

text \<open>Both keys held while the delay of \<open>key_down_work\<close> is still running.\<close>

definition example_pending :: keycombo_state where
  "example_pending =
     example_held\<lparr>wq := \<lparr>timer = True, worklist = [], current_work = None\<rparr>\<rparr>"

text \<open>The same configuration with only one of the two callbacks set.\<close>

definition example_no_key_up_fn :: keycombo_state where
  "example_no_key_up_fn = example_state\<lparr>key_up_fn := False\<rparr>"

definition example_no_key_down_fn :: keycombo_state where
  "example_no_key_down_fn = example_state\<lparr>key_down_fn := False\<rparr>"

text \<open>
  Both keys are pressed, the delay expires and the worker executes \<open>do_key_down\<close>; one key
  is released and the worker executes \<open>do_key_up\<close>; the key is pressed again, the delay
  expires and the worker executes \<open>do_key_down\<close> a second time.
\<close>

definition example_actions :: "action list" where
  "example_actions =
     [Event EV_KEY 116 1, Event EV_KEY 114 1, Timer_expires, Worker_takes, Worker_runs,
      Event EV_KEY 116 0, Worker_takes, Worker_runs,
      Event EV_KEY 116 1, Timer_expires, Worker_takes, Worker_runs]"

text \<open>
  Platform data for the worked example, with a code beyond the valid range in the down
  list, and an environment in which every allocation and registration succeeds and a
  write outside the key range misses both bitmaps.
\<close>

definition example_pdata :: keycombo_platform_data where
  "example_pdata =
     \<lparr>pd_key_down_fn = True, pd_key_up_fn = True, pd_priv = 0, pd_key_down_delay = 500,
      pd_keys_up = Some [115, 0], pd_keys_down = Some [116, 800, 114, 0]\<rparr>"

definition example_env :: probe_env where
  "example_env =
     \<lparr>kzalloc_pdata = True, keycombo_parse_dt = (\<lambda>node pdata. (0, pdata)),
      kzalloc_state = True, stray_keybit = (\<lambda>k. 0), stray_upbit = (\<lambda>k. (0, 0)),
      alloc_ordered_workqueue = True,
      msecs_to_jiffies = (\<lambda>ms. unat ms div 10), input_register_handler = 0\<rparr>"

definition example_pdev :: "keycombo_platform_data \<Rightarrow> platform_device" where
  "example_pdev pdata = \<lparr>of_node = None, platform_data = Some pdata\<rparr>"

text \<open>Platform data without any down key, and with the key 116 in both lists.\<close>

definition example_pdata_empty :: keycombo_platform_data where
  "example_pdata_empty = example_pdata\<lparr>pd_keys_up := None, pd_keys_down := Some [0]\<rparr>"

definition example_pdata_skipped :: keycombo_platform_data where
  "example_pdata_skipped = example_pdata\<lparr>pd_keys_up := None, pd_keys_down := Some [800, 0]\<rparr>"

definition example_pdata_both :: keycombo_platform_data where
  "example_pdata_both = example_pdata\<lparr>pd_keys_up := Some [116, 0], pd_keys_down := Some [116, 0]\<rparr>"

text \<open>Platform data whose down list holds a cell that is negative as a C \<open>int\<close>.\<close>

definition example_pdata_negative :: keycombo_platform_data where
  "example_pdata_negative =
     example_pdata\<lparr>pd_keys_up := None, pd_keys_down := Some [116, 0xfffffffb, 0]\<rparr>"

text \<open>The states \<open>keycombo_probe\<close> builds from these platform data.\<close>

definition example_empty :: keycombo_state where
  "example_empty = example_state\<lparr>keybit := 0, upbit := 0, key_down_target := 0\<rparr>"

definition example_both :: keycombo_state where
  "example_both =
     example_state\<lparr>keybit := set_bit_nr 116 0, upbit := set_bit_nr 116 0, key_down_target := 1\<rparr>"

text \<open>A device with the key 116, a device without keys, and a kernel that attaches.\<close>

definition example_dev :: input_dev where
  "example_dev = \<lparr>dev_keybit = set_bit_nr 116 (set_bit_nr 30 0)\<rparr>"

definition example_dev_no_keys :: input_dev where
  "example_dev_no_keys = \<lparr>dev_keybit = 0\<rparr>"

definition example_connect_env :: connect_env where
  "example_connect_env =
     \<lparr>kzalloc_handle = True, input_register_handle = 0, input_open_device = 0\<rparr>"

section \<open>Properties\<close>

subsection \<open>The bitmaps and the three ways through the event handler\<close>

lemmas example_simps =
  example_state_def example_held_def example_pending_def zeroed_state_def run_def boot_def keycombo_event_def
  EV_KEY_def KEY_MAX_def test_bit_def set_bit_nr_def change_bit_def count_key_def
  combo_transition_def combo_complete_def queue_delayed_work_def delayed_work_pending_def
  cancel_delayed_work_def queue_work_def timer_expires_def worker_takes_def run_work_def
  do_key_down_def do_key_up_def all_zero_def example_no_key_up_fn_def
  example_no_key_down_fn_def example_actions_def callbacks_def

lemma test_change_bit:
  "nr < KEY_MAX \<Longrightarrow>
     test_bit nr' (change_bit nr addr) =
       (if nr' = nr then \<not> test_bit nr' addr else test_bit nr' addr)"
  by (auto simp: test_bit_def change_bit_def bit_flip_bit_iff KEY_MAX_def
      dest: bit_imp_le_length)

lemma combo_transition_frame:
  "keybit (fst (combo_transition s)) = keybit s"
  "upbit (fst (combo_transition s)) = upbit s"
  "key (fst (combo_transition s)) = key s"
  "key_down (fst (combo_transition s)) = key_down s"
  "key_up (fst (combo_transition s)) = key_up s"
  "key_down_target (fst (combo_transition s)) = key_down_target s"
  "key_down_fn (fst (combo_transition s)) = key_down_fn s"
  "key_up_fn (fst (combo_transition s)) = key_up_fn s"
  "delay (fst (combo_transition s)) = delay s"
  by (simp_all add: combo_transition_def)

lemma count_key_frame:
  "keybit (count_key s c v) = keybit s"
  "upbit (count_key s c v) = upbit s"
  "key (count_key s c v) = key s"
  "key_down_target (count_key s c v) = key_down_target s"
  "key_is_down (count_key s c v) = key_is_down s"
  "wq (count_key s c v) = wq s"
  "key_down_fn (count_key s c v) = key_down_fn s"
  "key_up_fn (count_key s c v) = key_up_fn s"
  "delay (count_key s c v) = delay s"
  by (simp_all add: count_key_def)

lemma keycombo_event_ignored:
  "t \<noteq> EV_KEY \<or> KEY_MAX \<le> unat c \<or> \<not> test_bit (unat c) (keybit s) \<Longrightarrow>
     keycombo_event s t c v = (s, [])"
  by (auto simp: keycombo_event_def)

lemma keycombo_event_repeated:
  "t = EV_KEY \<Longrightarrow> unat c < KEY_MAX \<Longrightarrow> test_bit (unat c) (keybit s) \<Longrightarrow>
   test_bit (unat c) (key s) = (v \<noteq> 0) \<Longrightarrow>
     keycombo_event s t c v = (s, [Spin_lock_irqsave, Spin_unlock_irqrestore])"
  by (auto simp: keycombo_event_def)

lemma keycombo_event_changed:
  "t = EV_KEY \<Longrightarrow> unat c < KEY_MAX \<Longrightarrow> test_bit (unat c) (keybit s) \<Longrightarrow>
   test_bit (unat c) (key s) = (v = 0) \<Longrightarrow>
     keycombo_event s t c v =
       (fst (combo_transition (count_key (s\<lparr>key := change_bit (unat c) (key s)\<rparr>) (unat c) v)),
        [Spin_lock_irqsave] @
        snd (combo_transition (count_key (s\<lparr>key := change_bit (unat c) (key s)\<rparr>) (unat c) v)) @
        [Spin_unlock_irqrestore])"
  by (auto simp: keycombo_event_def Let_def split_beta)

subsection \<open>The state after construction\<close>

text \<open>
  What \<open>keycombo_probe\<close> returns is a state before the first event: the loops over the key
  lists write the configuration only.
\<close>

lemma scan_keys_down_all_zero:
  "scan_keys_down env ks s = Inr s' \<Longrightarrow> all_zero s \<Longrightarrow> all_zero s'"
  by (induction env ks s rule: scan_keys_down.induct) (auto simp: all_zero_def split: if_splits)

lemma scan_keys_up_all_zero:
  "scan_keys_up env ks s = Inr s' \<Longrightarrow> all_zero s \<Longrightarrow> all_zero s'"
  by (induction env ks s rule: scan_keys_up.induct) (auto simp: all_zero_def split: if_splits)

lemma keycombo_probe_all_zero:
  assumes "keycombo_probe env pdev = Inr state"
  shows "all_zero state"
proof -
  obtain pdata s where k: "probe_keys env pdata zeroed_state = Inr s"
    and s: "state = s\<lparr>priv := pd_priv pdata, key_down_fn := pd_key_down_fn pdata,
                      key_up_fn := pd_key_up_fn pdata,
                      delay := msecs_to_jiffies env (pd_key_down_delay pdata)\<rparr>"
    using assms by (auto simp: keycombo_probe_def split: sum.splits if_splits)
  have z: "all_zero zeroed_state" by (simp add: all_zero_def zeroed_state_def)
  have "all_zero s"
    using k z
    by (auto simp: probe_keys_def split: option.splits sum.splits
        dest: scan_keys_down_all_zero scan_keys_up_all_zero)
  then show ?thesis by (simp add: s all_zero_def)
qed

subsection \<open>Events that are not for this handler\<close>

text \<open>
  C10: an event whose type is not \<open>EV_KEY\<close>, and an event whose code is \<open>KEY_MAX\<close>
  itself, make the handler return at once: the state is unchanged and no call is made, not
  even the one that takes the lock.
\<close>

theorem keycombo_event_other_type_or_key_max:
  "type \<noteq> EV_KEY \<or> unat code = KEY_MAX \<Longrightarrow>
     keycombo_event state type code val = (state, [])"
  by (auto simp: keycombo_event_def)

theorem keycombo_event_other_type_or_key_max_witness:
  "(2 :: 32 word) \<noteq> EV_KEY \<and>
   keycombo_event example_held 2 116 0 = (example_held, []) \<and>
   unat (767 :: 32 word) = KEY_MAX \<and>
   keycombo_event example_held EV_KEY 767 1 = (example_held, [])"
  using keycombo_event_other_type_or_key_max [of 2 116 example_held 0]
    keycombo_event_other_type_or_key_max [of EV_KEY 767 example_held 1]
  by (simp add: EV_KEY_def KEY_MAX_def)

text \<open>
  C8: an event whose code is outside the valid range, or is not a tracked key (no bit in
  \<open>keybit\<close>, which holds the keys of both lists), leaves every field of the state as it was
  and makes no call: no work is queued or cancelled, no wake source touched.
\<close>

theorem keycombo_event_untracked:
  "KEY_MAX \<le> unat code \<or> \<not> test_bit (unat code) (keybit state) \<Longrightarrow>
     keycombo_event state type code val = (state, [])"
  by (auto simp: keycombo_event_def)

theorem keycombo_event_untracked_witness:
  "KEY_MAX \<le> unat (800 :: 32 word) \<and>
   keycombo_event example_held EV_KEY 800 1 = (example_held, []) \<and>
   \<not> test_bit (unat (113 :: 32 word)) (keybit example_held) \<and>
   keycombo_event example_held EV_KEY 113 1 = (example_held, [])"
  using keycombo_event_untracked [of 800 example_held EV_KEY 1]
    keycombo_event_untracked [of 113 example_held EV_KEY 1]
  by (simp add: KEY_MAX_def example_held_def example_state_def zeroed_state_def
      test_bit_def set_bit_nr_def)

subsection \<open>Repeated events\<close>

text \<open>
  C4: an event for a tracked key that reports the state the key is recorded in already
  leaves the whole state unchanged; the handler only takes and releases the lock. Hence the
  same event processed a second time changes nothing any more.
\<close>

theorem keycombo_event_duplicate:
  assumes "type = EV_KEY" and "unat code < KEY_MAX" and "test_bit (unat code) (keybit state)"
  shows "(test_bit (unat code) (key state) = (val \<noteq> 0) \<longrightarrow>
            keycombo_event state type code val =
              (state, [Spin_lock_irqsave, Spin_unlock_irqrestore])) \<and>
         keycombo_event (fst (keycombo_event state type code val)) type code val =
           (fst (keycombo_event state type code val),
            [Spin_lock_irqsave, Spin_unlock_irqrestore])"
proof -
  let ?s' = "fst (keycombo_event state type code val)"
  have kb: "keybit ?s' = keybit state"
    by (simp add: keycombo_event_def Let_def split_beta combo_transition_frame count_key_frame)
  have k: "test_bit (unat code) (key ?s') = (val \<noteq> 0)"
    using assms
    by (auto simp add: keycombo_event_def Let_def split_beta combo_transition_frame
        count_key_frame test_change_bit)
  show ?thesis
    using keycombo_event_repeated [of type code state val]
      keycombo_event_repeated [of type code ?s' val] kb k assms
    by auto
qed

theorem keycombo_event_duplicate_witness:
  "unat (116 :: 32 word) < KEY_MAX \<and> test_bit (unat (116 :: 32 word)) (keybit example_held) \<and>
   test_bit (unat (116 :: 32 word)) (key example_held) = ((1 :: 32 word) \<noteq> 0) \<and>
   keycombo_event example_held EV_KEY 116 1 =
     (example_held, [Spin_lock_irqsave, Spin_unlock_irqrestore]) \<and>
   keycombo_event (fst (keycombo_event example_held EV_KEY 116 0)) EV_KEY 116 0 =
     (fst (keycombo_event example_held EV_KEY 116 0), [Spin_lock_irqsave, Spin_unlock_irqrestore])"
proof -
  have h: "unat (116 :: 32 word) < KEY_MAX" "test_bit (unat (116 :: 32 word)) (keybit example_held)"
    by (simp_all add: KEY_MAX_def example_held_def example_state_def zeroed_state_def
        test_bit_def set_bit_nr_def)
  have p: "test_bit (unat (116 :: 32 word)) (key example_held) = ((1 :: 32 word) \<noteq> 0)"
    by (simp add: example_held_def example_state_def zeroed_state_def test_bit_def set_bit_nr_def)
  show ?thesis
    using keycombo_event_duplicate [OF refl h, of 1] keycombo_event_duplicate [OF refl h, of 0] h p
    by simp
qed

subsection \<open>Breaking the combination\<close>

text \<open>
  C2: when an event changes a key so that the combination is not complete, while
  \<open>key_is_down\<close> is set, the handler calls \<open>cancel_delayed_work\<close>. If the cancellation
  fails it activates the wake source \<open>combo_up\<close> and queues \<open>key_up_work\<close>; if it succeeds
  it does neither. In both cases it then releases the wake source \<open>combo_held\<close> and clears
  \<open>key_is_down\<close>.
\<close>

theorem keycombo_event_combo_broken:
  assumes "type = EV_KEY" and "unat code < KEY_MAX" and "test_bit (unat code) (keybit state)"
    and "test_bit (unat code) (key state) = (val = 0)"
    and "counted = count_key (state\<lparr>key := change_bit (unat code) (key state)\<rparr>) (unat code) val"
    and "\<not> combo_complete counted"
    and "key_is_down state \<noteq> 0"
  shows "keycombo_event state type code val =
           (if fst (cancel_delayed_work (wq state)) then
              (counted\<lparr>wq := snd (cancel_delayed_work (wq state)),
                       combo_held_wake_source := False, key_is_down := 0\<rparr>,
               [Spin_lock_irqsave, Cancel_delayed_work, Pm_relax Combo_held,
                Spin_unlock_irqrestore])
            else
              (counted\<lparr>combo_up_wake_source := True, wq := snd (queue_work (wq state)),
                       combo_held_wake_source := False, key_is_down := 0\<rparr>,
               [Spin_lock_irqsave, Cancel_delayed_work, Pm_stay_awake Combo_up, Queue_work,
                Pm_relax Combo_held, Spin_unlock_irqrestore]))"
proof -
  have kd: "key_is_down counted \<noteq> 0" and q: "wq counted = wq state"
    using assms(5,7) by (simp_all add: count_key_frame)
  have same: "\<not> fst (cancel_delayed_work (wq state)) \<Longrightarrow> snd (cancel_delayed_work (wq state)) = wq state"
    by (simp add: cancel_delayed_work_def split: if_splits)
  have "keycombo_event state type code val =
          (fst (combo_transition counted),
           [Spin_lock_irqsave] @ snd (combo_transition counted) @ [Spin_unlock_irqrestore])"
    using assms(1-5) by (simp add: keycombo_event_changed)
  then show ?thesis
    using assms(6) kd q same by (simp add: combo_transition_def combo_complete_def)
qed

theorem keycombo_event_combo_broken_witness:
  "keycombo_event example_held EV_KEY 116 0 =
     (example_held\<lparr>key := set_bit_nr 114 0, key_down := 1, combo_up_wake_source := True,
         wq := \<lparr>timer = False, worklist = [Key_up_work], current_work = Some Key_down_work\<rparr>,
         combo_held_wake_source := False, key_is_down := 0\<rparr>,
      [Spin_lock_irqsave, Cancel_delayed_work, Pm_stay_awake Combo_up, Queue_work,
       Pm_relax Combo_held, Spin_unlock_irqrestore]) \<and>
   keycombo_event example_pending EV_KEY 116 0 =
     (example_pending\<lparr>key := set_bit_nr 114 0, key_down := 1,
         wq := \<lparr>timer = False, worklist = [], current_work = None\<rparr>,
         combo_held_wake_source := False, key_is_down := 0\<rparr>,
      [Spin_lock_irqsave, Cancel_delayed_work, Pm_relax Combo_held, Spin_unlock_irqrestore])"
proof -
  have h: "unat (116 :: 32 word) < KEY_MAX"
    "test_bit (unat (116 :: 32 word)) (keybit example_held)"
    "test_bit (unat (116 :: 32 word)) (key example_held) = ((0 :: 32 word) = 0)"
    "\<not> combo_complete (count_key (example_held\<lparr>key := change_bit (unat (116 :: 32 word))
        (key example_held)\<rparr>) (unat (116 :: 32 word)) 0)"
    "key_is_down example_held \<noteq> 0"
    by (simp_all add: example_simps)
  have g: "test_bit (unat (116 :: 32 word)) (keybit example_pending)"
    "test_bit (unat (116 :: 32 word)) (key example_pending) = ((0 :: 32 word) = 0)"
    "\<not> combo_complete (count_key (example_pending\<lparr>key := change_bit (unat (116 :: 32 word))
        (key example_pending)\<rparr>) (unat (116 :: 32 word)) 0)"
    "key_is_down example_pending \<noteq> 0"
    by (simp_all add: example_simps)
  show ?thesis
    using keycombo_event_combo_broken [OF refl h(1,2,3) refl h(4,5)]
      keycombo_event_combo_broken [OF refl h(1) g(1,2) refl g(3,4)]
    by (simp add: example_simps)
qed

subsection \<open>Invariants of the running driver\<close>

lemma run_invariant:
  assumes "\<And>sys a. P sys \<Longrightarrow> P (step sys a)" and "P sys"
  shows "P (run sys actions)"
  using assms(2) unfolding run_def
  by (induction actions arbitrary: sys) (simp_all add: assms(1))

lemma run_work_frame:
  "keybit (fst (run_work w s)) = keybit s"
  "upbit (fst (run_work w s)) = upbit s"
  "key (fst (run_work w s)) = key s"
  "key_down (fst (run_work w s)) = key_down s"
  "key_up (fst (run_work w s)) = key_up s"
  "key_down_target (fst (run_work w s)) = key_down_target s"
  "key_is_down (fst (run_work w s)) = key_is_down s"
  "key_down_fn (fst (run_work w s)) = key_down_fn s"
  "key_up_fn (fst (run_work w s)) = key_up_fn s"
  "wq (fst (run_work w s)) = wq s"
  by (cases w; simp add: run_work_def do_key_down_def do_key_up_def)+

lemma pressed_card:
  "length (filter P [0..<KEY_CNT]) = card {c. c < KEY_CNT \<and> P c}"
proof -
  have "length (filter P [0..<KEY_CNT]) = card ({x. P x} \<inter> set [0..<KEY_CNT])"
    by (rule distinct_length_filter) simp
  also have "{x. P x} \<inter> set [0..<KEY_CNT] = {c. c < KEY_CNT \<and> P c}" by auto
  finally show ?thesis .
qed

lemma count_flip_on:
  assumes "n < KEY_CNT" "\<not> P n" "\<And>c. Q c = (c = n \<or> P c)"
  shows "length (filter Q [0..<KEY_CNT]) = Suc (length (filter P [0..<KEY_CNT]))"
proof -
  have "{c. c < KEY_CNT \<and> Q c} = insert n {c. c < KEY_CNT \<and> P c}" using assms by auto
  moreover have "finite {c. c < KEY_CNT \<and> P c}" by simp
  moreover have "n \<notin> {c. c < KEY_CNT \<and> P c}" using assms by simp
  ultimately show ?thesis by (simp add: pressed_card)
qed

lemma count_same:
  assumes "\<And>c. c < KEY_CNT \<Longrightarrow> Q c = P c"
  shows "length (filter Q [0..<KEY_CNT]) = length (filter P [0..<KEY_CNT])"
proof -
  have "filter Q [0..<KEY_CNT] = filter P [0..<KEY_CNT]"
    by (rule filter_cong) (use assms in auto)
  then show ?thesis by simp
qed

lemma count_le: "length (filter P [0..<KEY_CNT]) \<le> 768"
proof -
  have "length (filter P [0..<KEY_CNT]) \<le> length [0..<KEY_CNT]" by (rule length_filter_le)
  then show ?thesis by (simp add: KEY_CNT_def KEY_MAX_def)
qed

lemma pressed_flip_on:
  assumes "n < KEY_MAX" "\<not> test_bit n k" "M n"
  shows "length (filter (\<lambda>c. M c \<and> test_bit c (change_bit n k)) [0..<KEY_CNT]) =
         Suc (length (filter (\<lambda>c. M c \<and> test_bit c k) [0..<KEY_CNT]))"
  by (rule count_flip_on [where n = n]) (use assms in \<open>auto simp: test_change_bit KEY_CNT_def\<close>)

lemma pressed_flip_off:
  assumes "n < KEY_MAX" "test_bit n k" "M n"
  shows "length (filter (\<lambda>c. M c \<and> test_bit c k) [0..<KEY_CNT]) =
         Suc (length (filter (\<lambda>c. M c \<and> test_bit c (change_bit n k)) [0..<KEY_CNT]))"
  by (rule count_flip_on [where n = n]) (use assms in \<open>auto simp: test_change_bit KEY_CNT_def\<close>)

lemma pressed_flip_other:
  assumes "n < KEY_MAX" "\<not> M n"
  shows "length (filter (\<lambda>c. M c \<and> test_bit c (change_bit n k)) [0..<KEY_CNT]) =
         length (filter (\<lambda>c. M c \<and> test_bit c k) [0..<KEY_CNT])"
  by (rule count_same) (use assms in \<open>auto simp: test_change_bit\<close>)

lemma sint_count: "n \<le> 768 \<Longrightarrow> sint (word_of_nat n :: 32 word) = int n"
  by (simp add: signed_of_nat signed_take_bit_int_eq_self)

lemma word_pred_count: "(word_of_nat (Suc n) :: 32 word) - 1 = word_of_nat n"
  by simp

lemma pressed_cong:
  "keybit a = keybit b \<Longrightarrow> upbit a = upbit b \<Longrightarrow> key a = key b \<Longrightarrow>
     down_pressed a = down_pressed b \<and> up_pressed a = up_pressed b"
  by (simp add: down_pressed_def up_pressed_def)

lemma counts_changed:
  assumes n: "n < KEY_MAX" and tr: "test_bit n (keybit s)" and t: "test_bit n (key s) = (v = 0)"
    and d: "key_down s = word_of_nat (down_pressed s)"
    and u: "key_up s = word_of_nat (up_pressed s)"
  shows "key_down (count_key (s\<lparr>key := change_bit n (key s)\<rparr>) n v) =
           word_of_nat (down_pressed (count_key (s\<lparr>key := change_bit n (key s)\<rparr>) n v)) \<and>
         key_up (count_key (s\<lparr>key := change_bit n (key s)\<rparr>) n v) =
           word_of_nat (up_pressed (count_key (s\<lparr>key := change_bit n (key s)\<rparr>) n v))"
proof -
  let ?D = "\<lambda>c. test_bit c (keybit s) \<and> \<not> test_bit c (upbit s)"
  let ?U = "\<lambda>c. test_bit c (upbit s)"
  let ?s1 = "s\<lparr>key := change_bit n (key s)\<rparr>"
  let ?s2 = "count_key ?s1 n v"
  have c: "down_pressed ?s2 = down_pressed ?s1" "up_pressed ?s2 = up_pressed ?s1"
    using pressed_cong [of ?s2 ?s1] by (simp_all add: count_key_frame)
  show ?thesis
  proof (cases "test_bit n (upbit s)")
    case isup: True
    have down: "down_pressed ?s1 = down_pressed s"
      using pressed_flip_other [of n ?D "key s"] n isup
      by (simp add: down_pressed_def)
    have kd: "key_down ?s2 = key_down s"
      using isup by (simp add: count_key_def)
    show ?thesis
    proof (cases "v = 0")
      case True
      have e: "up_pressed s = Suc (up_pressed ?s1)"
        using pressed_flip_off [of n "key s" ?U] n t True isup
        by (simp add: up_pressed_def)
      have "key_up ?s2 = key_up s - 1"
        using isup True by (simp add: count_key_def)
      then show ?thesis by (simp only: c down kd d u e word_pred_count)
    next
      case False
      have e: "up_pressed ?s1 = Suc (up_pressed s)"
        using pressed_flip_on [of n "key s" ?U] n t False isup
        by (simp add: up_pressed_def)
      have "key_up ?s2 = key_up s + 1"
        using isup False by (simp add: count_key_def)
      then show ?thesis by (simp add: c down kd d u e)
    qed
  next
    case notup: False
    have up: "up_pressed ?s1 = up_pressed s"
      using pressed_flip_other [of n ?U "key s"] n notup
      by (simp add: up_pressed_def)
    have ku: "key_up ?s2 = key_up s"
      using notup by (simp add: count_key_def)
    show ?thesis
    proof (cases "v = 0")
      case True
      have e: "down_pressed s = Suc (down_pressed ?s1)"
        using pressed_flip_off [of n "key s" ?D] n t True notup tr
        by (simp add: down_pressed_def)
      have "key_down ?s2 = key_down s - 1"
        using notup True by (simp add: count_key_def)
      then show ?thesis by (simp only: c up ku d u e word_pred_count)
    next
      case False
      have e: "down_pressed ?s1 = Suc (down_pressed s)"
        using pressed_flip_on [of n "key s" ?D] n t False notup tr
        by (simp add: down_pressed_def)
      have "key_down ?s2 = key_down s + 1"
        using notup False by (simp add: count_key_def)
      then show ?thesis by (simp add: c up ku d u e)
    qed
  qed
qed

lemma counts_event:
  assumes d: "key_down s = word_of_nat (down_pressed s)"
    and u: "key_up s = word_of_nat (up_pressed s)"
  shows "key_down (fst (keycombo_event s t c v)) =
           word_of_nat (down_pressed (fst (keycombo_event s t c v))) \<and>
         key_up (fst (keycombo_event s t c v)) =
           word_of_nat (up_pressed (fst (keycombo_event s t c v)))"
proof (cases "t \<noteq> EV_KEY \<or> KEY_MAX \<le> unat c \<or> \<not> test_bit (unat c) (keybit s)")
  case True
  then show ?thesis using d u by (simp add: keycombo_event_ignored)
next
  case live: False
  show ?thesis
  proof (cases "test_bit (unat c) (key s) = (v \<noteq> 0)")
    case True
    then show ?thesis using live d u by (simp add: keycombo_event_repeated)
  next
    case False
    let ?s2 = "count_key (s\<lparr>key := change_bit (unat c) (key s)\<rparr>) (unat c) v"
    have ev: "fst (keycombo_event s t c v) = fst (combo_transition ?s2)"
      using live False by (simp add: keycombo_event_changed)
    have p: "down_pressed (fst (combo_transition ?s2)) = down_pressed ?s2"
        "up_pressed (fst (combo_transition ?s2)) = up_pressed ?s2"
      using pressed_cong [of "fst (combo_transition ?s2)" ?s2]
      by (simp_all add: combo_transition_frame)
    have "key_down ?s2 = word_of_nat (down_pressed ?s2) \<and>
          key_up ?s2 = word_of_nat (up_pressed ?s2)"
      using live False d u by (intro counts_changed) auto
    then show ?thesis by (simp add: ev p combo_transition_frame)
  qed
qed

lemma step_counts:
  assumes "key_down (st sys) = word_of_nat (down_pressed (st sys)) \<and>
           key_up (st sys) = word_of_nat (up_pressed (st sys))"
  shows "key_down (st (step sys a)) = word_of_nat (down_pressed (st (step sys a))) \<and>
         key_up (st (step sys a)) = word_of_nat (up_pressed (st (step sys a)))"
proof (cases a)
  case (Event t c v)
  then show ?thesis using counts_event [of "st sys" t c v] assms by simp
next
  case Timer_expires
  then show ?thesis using assms pressed_cong [of "st (step sys a)" "st sys"] by simp
next
  case Worker_takes
  then show ?thesis using assms pressed_cong [of "st (step sys a)" "st sys"] by simp
next
  case Worker_runs
  show ?thesis
  proof (cases "current_work (wq (st sys))")
    case None
    then show ?thesis using assms Worker_runs by simp
  next
    case (Some w)
    then show ?thesis using assms Worker_runs pressed_cong [of "st (step sys a)" "st sys"]
      by (simp add: run_work_frame)
  qed
qed

lemma all_zero_counts:
  assumes "all_zero s"
  shows "down_pressed s = 0" "up_pressed s = 0"
  using assms by (simp_all add: all_zero_def down_pressed_def up_pressed_def test_bit_def)

text \<open>
  C1: from the state before the first event, after every sequence of events, also mixed
  with expiries of the timer and steps of the worker, \<open>key_down\<close> is the number of down keys
  whose bit in \<open>key\<close> is set and \<open>key_up\<close> the number of up keys whose bit is set. The
  sequence is arbitrary, so this holds after each call of the handler.
\<close>

theorem counts_are_pressed_keys:
  assumes "all_zero state"
  shows "sint (key_down (st (run (boot state) actions))) =
           int (down_pressed (st (run (boot state) actions))) \<and>
         sint (key_up (st (run (boot state) actions))) =
           int (up_pressed (st (run (boot state) actions)))"
proof -
  let ?P = "\<lambda>sys. key_down (st sys) = word_of_nat (down_pressed (st sys)) \<and>
           key_up (st sys) = word_of_nat (up_pressed (st sys))"
  have "?P (boot state)"
    using assms all_zero_counts [OF assms] by (simp add: boot_def all_zero_def)
  then have "?P (run (boot state) actions)"
    by (rule run_invariant [where P = ?P, rotated]) (rule step_counts)
  then show ?thesis
    by (simp add: sint_count count_le down_pressed_def up_pressed_def)
qed

theorem counts_are_pressed_keys_witness:
  "all_zero example_state \<and>
   sint (key_down (st (run (boot example_state)
      [Event EV_KEY 116 1, Event EV_KEY 115 1, Event EV_KEY 114 1, Event EV_KEY 116 0]))) =
     int (down_pressed (st (run (boot example_state)
      [Event EV_KEY 116 1, Event EV_KEY 115 1, Event EV_KEY 114 1, Event EV_KEY 116 0]))) \<and>
   sint (key_up (st (run (boot example_state)
      [Event EV_KEY 116 1, Event EV_KEY 115 1, Event EV_KEY 114 1, Event EV_KEY 116 0]))) =
     int (up_pressed (st (run (boot example_state)
      [Event EV_KEY 116 1, Event EV_KEY 115 1, Event EV_KEY 114 1, Event EV_KEY 116 0]))) \<and>
   key_down (st (run (boot example_state)
      [Event EV_KEY 116 1, Event EV_KEY 115 1, Event EV_KEY 114 1, Event EV_KEY 116 0])) = 1 \<and>
   key_up (st (run (boot example_state)
      [Event EV_KEY 116 1, Event EV_KEY 115 1, Event EV_KEY 114 1, Event EV_KEY 116 0])) = 1"
proof -
  have z: "all_zero example_state"
    by (simp add: example_simps)
  have "key_down (st (run (boot example_state)
      [Event EV_KEY 116 1, Event EV_KEY 115 1, Event EV_KEY 114 1, Event EV_KEY 116 0])) = 1"
    "key_up (st (run (boot example_state)
      [Event EV_KEY 116 1, Event EV_KEY 115 1, Event EV_KEY 114 1, Event EV_KEY 116 0])) = 1"
    by (simp_all add: example_simps)
  then show ?thesis
    using z counts_are_pressed_keys [OF z,
      of "[Event EV_KEY 116 1, Event EV_KEY 115 1, Event EV_KEY 114 1, Event EV_KEY 116 0]"]
    by simp
qed

lemma phase_transition:
  "key_is_down (fst (combo_transition s)) = 0 \<or>
   key_is_down (fst (combo_transition s)) = 1 \<and> combo_complete (fst (combo_transition s))"
  by (simp add: combo_transition_def combo_complete_def)

lemma phase_event:
  assumes "key_is_down s = 0 \<or> key_is_down s = 1 \<and> combo_complete s"
  shows "key_is_down (fst (keycombo_event s t c v)) = 0 \<or>
         key_is_down (fst (keycombo_event s t c v)) = 1 \<and> combo_complete (fst (keycombo_event s t c v))"
proof (cases "t \<noteq> EV_KEY \<or> KEY_MAX \<le> unat c \<or> \<not> test_bit (unat c) (keybit s)")
  case True
  then show ?thesis using assms by (simp add: keycombo_event_ignored)
next
  case live: False
  show ?thesis
  proof (cases "test_bit (unat c) (key s) = (v \<noteq> 0)")
    case True
    then show ?thesis using live assms by (simp add: keycombo_event_repeated)
  next
    case False
    then show ?thesis using live phase_transition by (simp add: keycombo_event_changed)
  qed
qed

lemma phase_step:
  assumes "key_is_down (st sys) = 0 \<or> key_is_down (st sys) = 1 \<and> combo_complete (st sys)"
  shows "key_is_down (st (step sys a)) = 0 \<or>
         key_is_down (st (step sys a)) = 1 \<and> combo_complete (st (step sys a))"
proof (cases a)
  case (Event t c v)
  then show ?thesis using phase_event [OF assms, of t c v] by simp
next
  case Timer_expires
  then show ?thesis using assms by (simp add: combo_complete_def)
next
  case Worker_takes
  then show ?thesis using assms by (simp add: combo_complete_def)
next
  case Worker_runs
  then show ?thesis using assms
    by (cases "current_work (wq (st sys))") (simp_all add: combo_complete_def run_work_frame)
qed

text \<open>
  C5: in every state reached from the state before the first event, \<open>key_is_down\<close> is 0 or
  1, and it is 1 only when \<open>key_down\<close> equals \<open>key_down_target\<close> and \<open>key_up\<close> is 0.
\<close>

theorem phase_only_when_complete:
  assumes "all_zero state"
  shows "key_is_down (st (run (boot state) actions)) = 0 \<or>
         key_is_down (st (run (boot state) actions)) = 1 \<and>
         key_down (st (run (boot state) actions)) = key_down_target (st (run (boot state) actions)) \<and>
         key_up (st (run (boot state) actions)) = 0"
proof -
  let ?P = "\<lambda>sys. key_is_down (st sys) = 0 \<or> key_is_down (st sys) = 1 \<and> combo_complete (st sys)"
  have "?P (boot state)"
    using assms by (simp add: boot_def all_zero_def)
  then have "?P (run (boot state) actions)"
    by (rule run_invariant [where P = ?P, rotated]) (rule phase_step)
  then show ?thesis by (simp add: combo_complete_def)
qed

theorem phase_only_when_complete_witness:
  "all_zero example_state \<and>
   key_is_down (st (run (boot example_state) [Event EV_KEY 116 1, Event EV_KEY 114 1])) = 1 \<and>
   key_down (st (run (boot example_state) [Event EV_KEY 116 1, Event EV_KEY 114 1])) =
     key_down_target (st (run (boot example_state) [Event EV_KEY 116 1, Event EV_KEY 114 1])) \<and>
   key_up (st (run (boot example_state) [Event EV_KEY 116 1, Event EV_KEY 114 1])) = 0"
proof -
  have z: "all_zero example_state"
    by (simp add: example_simps)
  have "key_is_down (st (run (boot example_state) [Event EV_KEY 116 1, Event EV_KEY 114 1])) = 1"
    by (simp add: example_simps)
  then show ?thesis
    using z phase_only_when_complete [OF z, of "[Event EV_KEY 116 1, Event EV_KEY 114 1]"]
    by simp
qed

subsection \<open>The order of the callbacks\<close>

lemma alternates_append:
  "alternates a b (xs @ ys) =
     (alternates a b xs \<and> (if even (length xs) then alternates a b ys else alternates b a ys))"
  by (induction xs arbitrary: a b) auto

lemma alternates_snoc:
  "alternates a b (xs @ [x]) = (alternates a b xs \<and> x = (if even (length xs) then a else b))"
  by (simp only: alternates_append) auto

lemma alternates_last:
  "alternates a b xs \<Longrightarrow> xs \<noteq> [] \<Longrightarrow> last xs = (if odd (length xs) then a else b)"
  by (induction xs arbitrary: a b) auto

lemma alternates_map:
  "alternates a b xs \<Longrightarrow> alternates (f a) (f b) (map f xs)"
  by (induction xs arbitrary: a b) auto

lemma queue_ok_queue_delayed_work:
  assumes "queue_ok ex q False"
  shows "queue_ok ex (snd (queue_delayed_work q d)) True"
proof -
  have np: "\<not> timer q" "Key_down_work \<notin> set (worklist q)"
    using assms by (auto simp: queue_ok_def delayed_work_pending_def)
  have out: "outstanding (snd (queue_delayed_work q d)) = outstanding q @ [Key_down_work]"
    using np by (simp add: queue_delayed_work_def delayed_work_pending_def outstanding_def)
  have wl: "distinct (worklist (snd (queue_delayed_work q d)))"
    "\<not> (timer (snd (queue_delayed_work q d)) \<and>
        Key_down_work \<in> set (worklist (snd (queue_delayed_work q d))))"
    using np assms by (auto simp: queue_delayed_work_def delayed_work_pending_def queue_ok_def)
  have "alternates Key_down_work Key_up_work ((ex @ outstanding q) @ [Key_down_work])"
    using assms unfolding alternates_snoc queue_ok_def by simp
  then show ?thesis
    using assms wl by (simp add: queue_ok_def out)
qed

lemma queue_ok_last:
  assumes "queue_ok ex q True"
  shows "ex @ outstanding q \<noteq> []" "last (ex @ outstanding q) = Key_down_work"
proof -
  have o: "odd (length (ex @ outstanding q))" using assms by (simp add: queue_ok_def)
  then show ne: "ex @ outstanding q \<noteq> []" by (cases "ex @ outstanding q") auto
  show "last (ex @ outstanding q) = Key_down_work"
    using alternates_last [of Key_down_work Key_up_work "ex @ outstanding q"] assms o ne
    by (simp add: queue_ok_def)
qed

lemma queue_ok_drop_last:
  assumes "queue_ok ex q True" and "outstanding q = outstanding q' @ [Key_down_work]"
    and "distinct (worklist q')" and "\<not> delayed_work_pending q'"
  shows "queue_ok ex q' False"
proof -
  have "alternates Key_down_work Key_up_work ((ex @ outstanding q') @ [Key_down_work])"
    and "odd (length ((ex @ outstanding q') @ [Key_down_work]))"
    using assms(1,2) by (simp_all add: queue_ok_def)
  then have "alternates Key_down_work Key_up_work (ex @ outstanding q')"
    and "even (length (ex @ outstanding q'))"
    unfolding alternates_snoc by simp_all
  then show ?thesis
    using assms(3,4) by (simp add: queue_ok_def delayed_work_pending_def)
qed

lemma queue_ok_cancelled:
  assumes ok: "queue_ok ex q True" and c: "fst (cancel_delayed_work q)"
  shows "queue_ok ex (snd (cancel_delayed_work q)) False"
proof (cases "timer q")
  case True
  then have nw: "Key_down_work \<notin> set (worklist q)" using ok by (simp add: queue_ok_def)
  show ?thesis
    using ok True nw
    by (intro queue_ok_drop_last [OF ok])
       (simp_all add: cancel_delayed_work_def outstanding_def delayed_work_pending_def queue_ok_def)
next
  case False
  then have inw: "Key_down_work \<in> set (worklist q)"
    using c by (simp add: cancel_delayed_work_def split: if_splits)
  then have ne: "worklist q \<noteq> []" by auto
  have "last (ex @ outstanding q) = Key_down_work" by (rule queue_ok_last [OF ok])
  then have "last (worklist q) = Key_down_work"
    using False ne by (simp add: outstanding_def)
  then have wl: "worklist q = butlast (worklist q) @ [Key_down_work]"
    using ne append_butlast_last_id [of "worklist q"] by simp
  have d: "distinct (butlast (worklist q) @ [Key_down_work])"
    using ok wl by (simp add: queue_ok_def)
  then have nb: "Key_down_work \<notin> set (butlast (worklist q))" and db: "distinct (butlast (worklist q))"
    by simp_all
  have r: "removeAll Key_down_work (worklist q) = butlast (worklist q)"
    using nb by (subst wl) (simp)
  show ?thesis
  proof (rule queue_ok_drop_last [OF ok])
    show "outstanding q = outstanding (snd (cancel_delayed_work q)) @ [Key_down_work]"
      using False inw r wl by (simp add: cancel_delayed_work_def outstanding_def)
    show "distinct (worklist (snd (cancel_delayed_work q)))"
      using False inw r db by (simp add: cancel_delayed_work_def)
    show "\<not> delayed_work_pending (snd (cancel_delayed_work q))"
      using False inw r nb by (simp add: cancel_delayed_work_def delayed_work_pending_def)
  qed
qed

lemma queue_ok_too_late:
  assumes ok: "queue_ok ex q True" and c: "\<not> fst (cancel_delayed_work q)"
  shows "queue_ok ex (snd (queue_work (snd (cancel_delayed_work q)))) False"
proof -
  have np: "\<not> timer q" "Key_down_work \<notin> set (worklist q)"
    using c by (auto simp: cancel_delayed_work_def split: if_splits)
  have same: "snd (cancel_delayed_work q) = q"
    using np by (simp add: cancel_delayed_work_def)
  have l: "last (ex @ outstanding q) = Key_down_work" by (rule queue_ok_last [OF ok])
  have e: "worklist q = []"
  proof (rule ccontr)
    assume ne: "worklist q \<noteq> []"
    then have "last (ex @ outstanding q) = last (worklist q)"
      using np by (simp add: outstanding_def)
    then have "Key_down_work \<in> set (worklist q)" using l ne last_in_set [of "worklist q"] by simp
    then show False using np by simp
  qed
  have out: "outstanding (snd (queue_work q)) = outstanding q @ [Key_up_work]"
    using np e by (simp add: queue_work_def outstanding_def)
  have "alternates Key_down_work Key_up_work ((ex @ outstanding q) @ [Key_up_work])"
    using ok unfolding alternates_snoc queue_ok_def by simp
  then show ?thesis
    using ok np e
    by (simp add: same queue_ok_def out) (simp add: queue_work_def delayed_work_pending_def)
qed

lemma queue_ok_timer_expires:
  assumes "queue_ok ex q d"
  shows "queue_ok ex (timer_expires q) d"
proof (cases "timer q")
  case True
  then have nw: "Key_down_work \<notin> set (worklist q)" and d: "d"
    using assms by (auto simp: queue_ok_def delayed_work_pending_def)
  have "outstanding (timer_expires q) = outstanding q"
    using True by (simp add: timer_expires_def outstanding_def)
  then show ?thesis
    using assms True nw d by (simp add: queue_ok_def) (simp add: timer_expires_def)
next
  case False
  then show ?thesis using assms by (simp add: timer_expires_def)
qed

lemma queue_ok_worker_takes:
  assumes "queue_ok ex q d"
  shows "queue_ok ex (worker_takes q) d"
proof (cases "current_work q")
  case None
  show ?thesis
  proof (cases "worklist q")
    case Nil
    then show ?thesis using assms None by (simp add: worker_takes_def)
  next
    case (Cons w ws)
    have "outstanding (worker_takes q) = outstanding q"
      using None Cons by (simp add: worker_takes_def outstanding_def)
    then show ?thesis
      using assms None Cons
      by (simp add: queue_ok_def) (auto simp add: worker_takes_def delayed_work_pending_def)
  qed
next
  case (Some w)
  then show ?thesis using assms by (simp add: worker_takes_def)
qed

lemma queue_ok_worker_runs:
  assumes "queue_ok ex q d" and "current_work q = Some w"
  shows "queue_ok (ex @ [w]) (q\<lparr>current_work := None\<rparr>) d"
proof -
  have "(ex @ [w]) @ outstanding (q\<lparr>current_work := None\<rparr>) = ex @ outstanding q"
    using assms(2) by (simp add: outstanding_def)
  then show ?thesis
    using assms(1) unfolding queue_ok_def delayed_work_pending_def by auto
qed


lemma count_key_breaks:
  "combo_complete s \<Longrightarrow> \<not> combo_complete (count_key (s\<lparr>key := k\<rparr>) n v)"
  by (auto simp: combo_complete_def count_key_def)

lemma pipeline_transition:
  assumes q: "queue_ok ex (wq s) (key_is_down s \<noteq> 0)"
    and b: "key_is_down s = 0 \<or> \<not> combo_complete s"
  shows "queue_ok ex (wq (fst (combo_transition s))) (key_is_down (fst (combo_transition s)) \<noteq> 0) \<and>
         (key_is_down (fst (combo_transition s)) = 0 \<or> combo_complete (fst (combo_transition s)))"
proof (cases "combo_complete s")
  case True
  then have "queue_ok ex (wq s) False" using q b by simp
  then have "queue_ok ex (snd (queue_delayed_work (wq s) (delay s))) True"
    by (rule queue_ok_queue_delayed_work)
  then show ?thesis
    using True by (simp add: combo_transition_def combo_complete_def)
next
  case broken: False
  show ?thesis
  proof (cases "key_is_down s = 0")
    case True
    then show ?thesis using q broken by (auto simp add: combo_transition_def combo_complete_def)
  next
    case False
    then have ok: "queue_ok ex (wq s) True" using q by simp
    show ?thesis
    proof (cases "fst (cancel_delayed_work (wq s))")
      case True
      then show ?thesis
        using queue_ok_cancelled [OF ok True] broken False
        by (auto simp add: combo_transition_def combo_complete_def)
    next
      case late: False
      then show ?thesis
        using queue_ok_too_late [OF ok late] broken False
        by (auto simp add: combo_transition_def combo_complete_def)
    qed
  qed
qed

lemma pipeline_event:
  assumes "pipeline_ok sys"
  shows "pipeline_ok (step sys (Event t c v))"
proof (cases "t \<noteq> EV_KEY \<or> KEY_MAX \<le> unat c \<or> \<not> test_bit (unat c) (keybit (st sys))")
  case True
  then show ?thesis using assms by (simp add: keycombo_event_ignored pipeline_ok_def)
next
  case live: False
  show ?thesis
  proof (cases "test_bit (unat c) (key (st sys)) = (v \<noteq> 0)")
    case True
    then show ?thesis using live assms by (simp add: keycombo_event_repeated pipeline_ok_def)
  next
    case False
    let ?s2 = "count_key ((st sys)\<lparr>key := change_bit (unat c) (key (st sys))\<rparr>) (unat c) v"
    have ev: "fst (keycombo_event (st sys) t c v) = fst (combo_transition ?s2)"
      using live False by (simp add: keycombo_event_changed)
    have q: "queue_ok (executed sys) (wq ?s2) (key_is_down ?s2 \<noteq> 0)"
      using assms by (simp add: pipeline_ok_def count_key_frame)
    have b: "key_is_down ?s2 = 0 \<or> \<not> combo_complete ?s2"
      using assms count_key_breaks [of "st sys"] by (auto simp add: pipeline_ok_def count_key_frame)
    show ?thesis
      using pipeline_transition [OF q b] by (simp add: pipeline_ok_def ev)
  qed
qed

lemma pipeline_step:
  assumes "pipeline_ok sys"
  shows "pipeline_ok (step sys a)"
proof (cases a)
  case (Event t c v)
  then show ?thesis using pipeline_event [OF assms] by simp
next
  case Timer_expires
  then show ?thesis
    using assms queue_ok_timer_expires [of "executed sys" "wq (st sys)"]
    by (simp add: pipeline_ok_def combo_complete_def)
next
  case Worker_takes
  then show ?thesis
    using assms queue_ok_worker_takes [of "executed sys" "wq (st sys)"]
    by (simp add: pipeline_ok_def combo_complete_def)
next
  case Worker_runs
  show ?thesis
  proof (cases "current_work (wq (st sys))")
    case None
    then show ?thesis using assms Worker_runs by simp
  next
    case (Some w)
    then show ?thesis
      using assms Worker_runs queue_ok_worker_runs [of "executed sys" "wq (st sys)" _ w]
      by (simp add: pipeline_ok_def combo_complete_def run_work_frame)
  qed
qed

lemma pipeline_boot: "all_zero state \<Longrightarrow> pipeline_ok (boot state)"
  by (simp add: all_zero_def pipeline_ok_def queue_ok_def boot_def outstanding_def
      delayed_work_pending_def)

lemma callbacks_event: "callbacks (snd (keycombo_event s t c v)) = []"
  by (simp add: keycombo_event_def combo_transition_def callbacks_def Let_def split_beta)

lemma callbacks_run_work:
  "key_down_fn s \<Longrightarrow> key_up_fn s \<Longrightarrow> callbacks (snd (run_work w s)) = [callback_of w]"
  by (cases w) (simp_all add: run_work_def do_key_down_def do_key_up_def callbacks_def
      callback_of_def)

lemma fns_event:
  "key_down_fn (fst (keycombo_event s t c v)) = key_down_fn s"
  "key_up_fn (fst (keycombo_event s t c v)) = key_up_fn s"
  by (simp_all add: keycombo_event_def Let_def split_beta combo_transition_frame count_key_frame)

lemma callbacks_step:
  assumes "key_down_fn (st sys) \<and> key_up_fn (st sys) \<and>
           callbacks (calls sys) = map callback_of (executed sys)"
  shows "key_down_fn (st (step sys a)) \<and> key_up_fn (st (step sys a)) \<and>
         callbacks (calls (step sys a)) = map callback_of (executed (step sys a))"
proof (cases a)
  case (Event t c v)
  then show ?thesis
    using assms callbacks_event [of "st sys" t c v] by (simp add: fns_event callbacks_def)
next
  case Timer_expires
  then show ?thesis using assms by simp
next
  case Worker_takes
  then show ?thesis using assms by simp
next
  case Worker_runs
  show ?thesis
  proof (cases "current_work (wq (st sys))")
    case None
    then show ?thesis using assms Worker_runs by simp
  next
    case (Some w)
    then show ?thesis
      using assms Worker_runs callbacks_run_work [of "st sys" w]
      by (simp add: run_work_frame callbacks_def)
  qed
qed

text \<open>
  C3, as amended: over every sequence of events, expiries of the timer and steps of the
  worker, the executions of the two work functions alternate and start with \<open>do_key_down\<close>;
  when both callbacks are set, the invocations of \<open>key_down_fn\<close> and \<open>key_up_fn\<close> alternate
  and start with \<open>key_down_fn\<close>.
\<close>

theorem work_functions_alternate:
  assumes "all_zero state"
  shows "alternates Key_down_work Key_up_work (executed (run (boot state) actions)) \<and>
         (key_down_fn state \<and> key_up_fn state \<longrightarrow>
            alternates Call_key_down_fn Call_key_up_fn
              (callbacks (calls (run (boot state) actions))))"
proof -
  have "pipeline_ok (run (boot state) actions)"
    by (rule run_invariant [where P = pipeline_ok, rotated])
       (rule pipeline_boot [OF assms], rule pipeline_step)
  then have "alternates Key_down_work Key_up_work
      (executed (run (boot state) actions) @ outstanding (wq (st (run (boot state) actions))))"
    by (simp add: pipeline_ok_def queue_ok_def)
  then have w: "alternates Key_down_work Key_up_work (executed (run (boot state) actions))"
    by (simp only: alternates_append)
  have "alternates Call_key_down_fn Call_key_up_fn (callbacks (calls (run (boot state) actions)))"
    if f: "key_down_fn state \<and> key_up_fn state"
  proof -
    let ?Q = "\<lambda>sys. key_down_fn (st sys) \<and> key_up_fn (st sys) \<and>
           callbacks (calls sys) = map callback_of (executed sys)"
    have "?Q (boot state)" using f by (simp add: boot_def callbacks_def)
    then have "?Q (run (boot state) actions)"
      by (rule run_invariant [where P = ?Q, rotated]) (rule callbacks_step)
    then show ?thesis
      using alternates_map [OF w, of callback_of] by (simp add: callback_of_def)
  qed
  then show ?thesis using w by simp
qed

theorem work_functions_alternate_witness:
  "all_zero example_state \<and> key_down_fn example_state \<and> key_up_fn example_state \<and>
   alternates Key_down_work Key_up_work (executed (run (boot example_state) example_actions)) \<and>
   alternates Call_key_down_fn Call_key_up_fn
     (callbacks (calls (run (boot example_state) example_actions))) \<and>
   callbacks (calls (run (boot example_state) example_actions)) =
     [Call_key_down_fn, Call_key_up_fn, Call_key_down_fn]"
proof -
  have z: "all_zero example_state" and f: "key_down_fn example_state" "key_up_fn example_state"
    by (simp_all add: example_simps)
  have "callbacks (calls (run (boot example_state) example_actions)) =
     [Call_key_down_fn, Call_key_up_fn, Call_key_down_fn]"
    by (simp add: example_simps)
  then show ?thesis
    using z f work_functions_alternate [OF z, of example_actions] by simp
qed

text \<open>
  C3 as stated fails when only one callback is set, since each work function tests its
  callback against \<open>NULL\<close> on its own: without \<open>key_up_fn\<close> two invocations of
  \<open>key_down_fn\<close> follow each other, and without \<open>key_down_fn\<close> the first invocation is one
  of \<open>key_up_fn\<close>.
\<close>

theorem callbacks_alternate_counterexample:
  "all_zero example_no_key_up_fn \<and>
   callbacks (calls (run (boot example_no_key_up_fn) example_actions)) =
     [Call_key_down_fn, Call_key_down_fn] \<and>
   \<not> alternates Call_key_down_fn Call_key_up_fn
       (callbacks (calls (run (boot example_no_key_up_fn) example_actions))) \<and>
   all_zero example_no_key_down_fn \<and>
   callbacks (calls (run (boot example_no_key_down_fn) example_actions)) = [Call_key_up_fn] \<and>
   \<not> alternates Call_key_down_fn Call_key_up_fn
       (callbacks (calls (run (boot example_no_key_down_fn) example_actions)))"
proof -
  have a: "callbacks (calls (run (boot example_no_key_up_fn) example_actions)) =
     [Call_key_down_fn, Call_key_down_fn]"
    by (simp add: example_simps)
  have b: "callbacks (calls (run (boot example_no_key_down_fn) example_actions)) =
     [Call_key_up_fn]"
    by (simp add: example_simps)
  have z: "all_zero example_no_key_up_fn" "all_zero example_no_key_down_fn"
    by (simp_all add: example_simps)
  show ?thesis
    unfolding a b using z by simp
qed

subsection \<open>Attaching to a device\<close>

lemma connect_loop_none:
  "i \<le> KEY_MAX \<Longrightarrow>
     (connect_loop kb db i = KEY_MAX) =
     (\<forall>j. i \<le> j \<and> j < KEY_MAX \<longrightarrow> \<not> (test_bit j kb \<and> test_bit j db))"
proof (induction kb db i rule: connect_loop.induct)
  case (1 kb db i)
  show ?case
  proof (cases "i < KEY_MAX")
    case False
    then show ?thesis using "1.prems" by (subst connect_loop.simps) auto
  next
    case below: True
    show ?thesis
    proof (cases "test_bit i kb \<and> test_bit i db")
      case True
      then have "connect_loop kb db i = i" using below by (subst connect_loop.simps) simp
      then show ?thesis using below True by auto
    next
      case False
      then have e: "connect_loop kb db i = connect_loop kb db (Suc i)"
        using below by (subst connect_loop.simps) auto
      have "(connect_loop kb db (Suc i) = KEY_MAX) =
            (\<forall>j. Suc i \<le> j \<and> j < KEY_MAX \<longrightarrow> \<not> (test_bit j kb \<and> test_bit j db))"
        using "1.IH" [OF below False] below by simp
      moreover have "(\<forall>j. Suc i \<le> j \<and> j < KEY_MAX \<longrightarrow> \<not> (test_bit j kb \<and> test_bit j db)) =
            (\<forall>j. i \<le> j \<and> j < KEY_MAX \<longrightarrow> \<not> (test_bit j kb \<and> test_bit j db))"
        using False by (metis Suc_leI le_neq_implies_less Suc_leD)
      ultimately show ?thesis using e by simp
    qed
  qed
qed

text \<open>
  C9: \<open>keycombo_connect\<close> goes on to attach, beginning with the allocation of the handle,
  if and only if some code below \<open>KEY_MAX\<close> is both a tracked key of the instance and a key
  of the device. Without such a code it returns \<open>-ENODEV\<close> and makes no call, so nothing is
  registered; with one, and a kernel that lets every step succeed, it registers the handle,
  opens the device and returns 0.
\<close>

theorem keycombo_connect_iff_common_key:
  "((\<exists>i<KEY_MAX. test_bit i (keybit state) \<and> test_bit i (dev_keybit dev)) =
      (take 1 (snd (keycombo_connect env state dev)) = [Kzalloc_handle])) \<and>
   ((\<exists>i<KEY_MAX. test_bit i (keybit state) \<and> test_bit i (dev_keybit dev)) \<or>
      keycombo_connect env state dev = (- ENODEV, [])) \<and>
   (((\<exists>i<KEY_MAX. test_bit i (keybit state) \<and> test_bit i (dev_keybit dev)) \<and>
     kzalloc_handle env \<and> input_register_handle env = 0 \<and> input_open_device env = 0) =
      (keycombo_connect env state dev =
         (0, [Kzalloc_handle, Input_register_handle, Input_open_device])))"
proof -
  have "(connect_loop (keybit state) (dev_keybit dev) 0 = KEY_MAX) =
        (\<not> (\<exists>i<KEY_MAX. test_bit i (keybit state) \<and> test_bit i (dev_keybit dev)))"
    using connect_loop_none [of 0 "keybit state" "dev_keybit dev"] by auto
  then show ?thesis
    by (auto simp add: keycombo_connect_def)
qed

theorem keycombo_connect_iff_common_key_witness:
  "take 1 (snd (keycombo_connect example_connect_env example_state example_dev)) =
     [Kzalloc_handle] \<and>
   keycombo_connect example_connect_env example_state example_dev =
     (0, [Kzalloc_handle, Input_register_handle, Input_open_device]) \<and>
   keycombo_connect example_connect_env example_state example_dev_no_keys = (- ENODEV, [])"
proof -
  have "\<exists>i<KEY_MAX. test_bit i (keybit example_state) \<and> test_bit i (dev_keybit example_dev)"
    by (rule exI [of _ 116]) (simp add: example_simps example_dev_def)
  moreover have "\<not> (\<exists>i<KEY_MAX. test_bit i (keybit example_state) \<and>
      test_bit i (dev_keybit example_dev_no_keys))"
    by (simp add: example_dev_no_keys_def test_bit_def)
  moreover have "kzalloc_handle example_connect_env \<and>
     input_register_handle example_connect_env = 0 \<and> input_open_device example_connect_env = 0"
    by (simp add: example_connect_env_def)
  ultimately show ?thesis
    using keycombo_connect_iff_common_key [of example_state example_dev example_connect_env]
      keycombo_connect_iff_common_key [of example_state example_dev_no_keys example_connect_env]
    by blast
qed

subsection \<open>Construction\<close>

lemma terminated_Cons:
  "terminated (k # ks) = (k = 0 \<or> 0 \<le> sint k \<and> terminated ks)"
  by (auto simp: terminated_def)

lemma listed_Cons:
  "listed (k # ks) =
     (if k = 0 then []
      else if 0 \<le> sint k \<and> sint k < int KEY_MAX then nat (sint k) # listed ks
      else listed ks)"
  by (simp add: listed_def)

lemma scan_keys_down_terminated:
  "terminated ks \<Longrightarrow>
     scan_keys_down env ks s =
       Inr (s\<lparr>key_down_target := key_down_target s + word_of_nat (length (listed ks)),
              keybit := fold set_bit_nr (listed ks) (keybit s)\<rparr>)"
proof (induction ks arbitrary: s)
  case Nil
  then show ?case by (simp add: terminated_def)
next
  case (Cons k ks)
  show ?case
  proof (cases "k = 0")
    case True
    then show ?thesis by (simp add: listed_Cons)
  next
    case False
    then have t: "terminated ks" and n: "0 \<le> sint k"
      using Cons.prems by (simp_all add: terminated_Cons)
    show ?thesis
      using False n Cons.IH [OF t] by (simp add: listed_Cons)
  qed
qed

lemma scan_keys_up_terminated:
  "terminated ks \<Longrightarrow>
     scan_keys_up env ks s =
       Inr (s\<lparr>keybit := fold set_bit_nr (listed ks) (keybit s),
              upbit := fold set_bit_nr (listed ks) (upbit s)\<rparr>)"
proof (induction ks arbitrary: s)
  case Nil
  then show ?case by (simp add: terminated_def)
next
  case (Cons k ks)
  show ?case
  proof (cases "k = 0")
    case True
    then show ?thesis by (simp add: listed_Cons)
  next
    case False
    then have t: "terminated ks" and n: "0 \<le> sint k"
      using Cons.prems by (simp_all add: terminated_Cons)
    show ?thesis
      using False n Cons.IH [OF t] by (simp add: listed_Cons)
  qed
qed

lemma probe_keys_terminated:
  assumes "pd_keys_down pdata = Some kd" and "terminated kd"
    and "pd_keys_up pdata = Some ku" and "terminated ku"
  shows "probe_keys env pdata zeroed_state =
           Inr (zeroed_state\<lparr>key_down_target := word_of_nat (length (listed kd)),
                  keybit := fold set_bit_nr (listed kd @ listed ku) 0,
                  upbit := fold set_bit_nr (listed ku) 0\<rparr>)"
  using assms
  by (simp add: probe_keys_def scan_keys_down_terminated scan_keys_up_terminated zeroed_state_def)

lemma probe_keys_terminated_no_up:
  assumes "pd_keys_down pdata = Some kd" and "terminated kd"
    and "pd_keys_up pdata = None"
  shows "probe_keys env pdata zeroed_state =
           Inr (zeroed_state\<lparr>key_down_target := word_of_nat (length (listed kd)),
                  keybit := fold set_bit_nr (listed kd) 0\<rparr>)"
  using assms
  by (simp add: probe_keys_def scan_keys_down_terminated zeroed_state_def)


lemma probe_keys_ok:
  assumes "key_lists_ok pdata"
  shows "probe_keys env pdata zeroed_state =
           Inr (zeroed_state\<lparr>key_down_target := word_of_nat (length (listed_down pdata)),
                  keybit := fold set_bit_nr (listed_down pdata @ listed_up pdata) 0,
                  upbit := fold set_bit_nr (listed_up pdata) 0\<rparr>)"
proof -
  obtain kd where kd: "pd_keys_down pdata = Some kd" "terminated kd"
    using assms by (auto simp: key_lists_ok_def split: option.splits)
  show ?thesis
  proof (cases "pd_keys_up pdata")
    case None
    then show ?thesis
      using probe_keys_terminated_no_up [OF kd None]
      by (simp add: kd listed_down_def listed_up_def zeroed_state_def)
  next
    case (Some ku)
    then have "terminated ku" using assms by (simp add: key_lists_ok_def)
    then show ?thesis
      using probe_keys_terminated [OF kd Some] by (simp add: kd Some listed_down_def listed_up_def)
  qed
qed

lemma keycombo_probe_result:
  assumes "probe_pdata env pdev = Inr pdata" and "key_lists_ok pdata"
  shows "keycombo_probe env pdev =
           (if \<not> kzalloc_state env \<or> \<not> alloc_ordered_workqueue env
              then Inl (Errno (- ENOMEM))
            else if input_register_handler env \<noteq> 0
              then Inl (Errno (input_register_handler env))
            else
              Inr (zeroed_state
                     \<lparr>key_down_target := word_of_nat (length (listed_down pdata)),
                      keybit := fold set_bit_nr (listed_down pdata @ listed_up pdata) 0,
                      upbit := fold set_bit_nr (listed_up pdata) 0,
                      priv := pd_priv pdata,
                      key_down_fn := pd_key_down_fn pdata,
                      key_up_fn := pd_key_up_fn pdata,
                      delay := msecs_to_jiffies env (pd_key_down_delay pdata)\<rparr>))"
  using assms(1) probe_keys_ok [OF assms(2)]
  by (simp add: keycombo_probe_def)

text \<open>
  C6, as amended: construction does not fail on an empty down list. With platform data
  whose key lists are zero-terminated arrays without a cell that is negative as a C \<open>int\<close>
  before the terminator, \<open>keycombo_probe\<close> fails exactly when the state or the work queue
  cannot be allocated or the input handler cannot be registered; otherwise it builds the
  state from the codes below \<open>KEY_MAX\<close> that stand before the terminators, codes at or
  beyond \<open>KEY_MAX\<close> being skipped, also when no down key is left: \<open>key_down_target\<close> is
  then 0.
\<close>

theorem keycombo_probe_key_lists:
  assumes "probe_pdata env pdev = Inr pdata" and "key_lists_ok pdata"
  shows "keycombo_probe env pdev =
           (if \<not> kzalloc_state env \<or> \<not> alloc_ordered_workqueue env
              then Inl (Errno (- ENOMEM))
            else if input_register_handler env \<noteq> 0
              then Inl (Errno (input_register_handler env))
            else
              Inr (zeroed_state
                     \<lparr>key_down_target := word_of_nat (length (listed_down pdata)),
                      keybit := fold set_bit_nr (listed_down pdata @ listed_up pdata) 0,
                      upbit := fold set_bit_nr (listed_up pdata) 0,
                      priv := pd_priv pdata,
                      key_down_fn := pd_key_down_fn pdata,
                      key_up_fn := pd_key_up_fn pdata,
                      delay := msecs_to_jiffies env (pd_key_down_delay pdata)\<rparr>))"
  using assms by (rule keycombo_probe_result)

theorem keycombo_probe_key_lists_witness:
  "probe_pdata example_env (example_pdev example_pdata) = Inr example_pdata \<and>
   key_lists_ok example_pdata \<and>
   listed_down example_pdata = [116, 114] \<and>
   keycombo_probe example_env (example_pdev example_pdata) = Inr example_state"
proof -
  have p: "probe_pdata example_env (example_pdev example_pdata) = Inr example_pdata"
    by (simp add: probe_pdata_def example_pdev_def)
  have k: "key_lists_ok example_pdata"
    by (simp add: key_lists_ok_def example_pdata_def terminated_def)
  have l: "listed_down example_pdata = [116, 114]" "listed_up example_pdata = [115]"
    by (simp_all add: listed_down_def listed_up_def listed_def example_pdata_def KEY_MAX_def)
  show ?thesis
    using keycombo_probe_key_lists [OF p k] p k l
    by (simp add: example_env_def example_state_def example_pdata_def zeroed_state_def
        set_bit_nr_def)
qed

text \<open>
  C6 as stated fails: with an empty down list, and with a down list whose only code is
  beyond the range, \<open>keycombo_probe\<close> succeeds and returns an instance without down keys.
\<close>

theorem keycombo_probe_empty_counterexample:
  "pd_keys_down example_pdata_empty = Some [0] \<and>
   keycombo_probe example_env (example_pdev example_pdata_empty) = Inr example_empty \<and>
   pd_keys_down example_pdata_skipped = Some [800, 0] \<and>
   keycombo_probe example_env (example_pdev example_pdata_skipped) = Inr example_empty \<and>
   key_down_target example_empty = 0 \<and> keybit example_empty = 0"
  by (simp add: keycombo_probe_def probe_pdata_def probe_keys_def example_pdev_def
      example_pdata_empty_def example_pdata_skipped_def example_pdata_def example_env_def
      example_empty_def example_state_def zeroed_state_def KEY_MAX_def set_bit_nr_def)

text \<open>
  A cell that is negative as a C \<open>int\<close> is neither skipped nor refused: the loop counts it
  in \<open>key_down_target\<close> and goes on to the next cell.
\<close>

lemma keycombo_probe_negative_key:
  "sint (0xfffffffb :: 32 word) = - 5 \<and>
   keycombo_probe example_env (example_pdev example_pdata_negative) =
     Inr (example_state\<lparr>keybit := set_bit_nr 116 0, upbit := 0, key_down_target := 2\<rparr>)"
  by (simp add: keycombo_probe_def probe_pdata_def probe_keys_def example_pdev_def
      example_pdata_negative_def example_pdata_def example_env_def example_state_def
      zeroed_state_def KEY_MAX_def set_bit_nr_def)

lemma listed_below: "c \<in> set (listed ks) \<Longrightarrow> c < KEY_MAX"
  by (auto simp: listed_def KEY_MAX_def)

lemma bitmaps_event:
  "keybit (fst (keycombo_event s t c v)) = keybit s \<and>
   upbit (fst (keycombo_event s t c v)) = upbit s"
  by (simp add: keycombo_event_def Let_def split_beta combo_transition_frame count_key_frame)

lemma bitmaps_step:
  "keybit (st (step sys a)) = keybit (st sys) \<and> upbit (st (step sys a)) = upbit (st sys)"
proof (cases a)
  case (Event t c v)
  then show ?thesis by (simp add: bitmaps_event)
next
  case Worker_runs
  then show ?thesis
    by (cases "current_work (wq (st sys))") (simp_all add: run_work_frame)
qed simp_all

lemma bitmaps_run:
  "keybit (st (run sys actions)) = keybit (st sys) \<and> upbit (st (run sys actions)) = upbit (st sys)"
  by (rule run_invariant [where P = "\<lambda>sys'. keybit (st sys') = keybit (st sys) \<and>
        upbit (st sys') = upbit (st sys)"]) (simp_all add: bitmaps_step)

lemma test_bit_set_bit_nr:
  "test_bit c (set_bit_nr n b) = (test_bit c b \<or> c = n \<and> n < 768)"
  by (auto simp: test_bit_def set_bit_nr_def bit_set_bit_iff)

lemma test_bit_or: "test_bit c (a OR b) = (test_bit c a \<or> test_bit c b)"
  by (simp add: test_bit_def bit_or_iff)

lemma scan_keys_up_keeps:
  "scan_keys_up env ks s = Inr s' \<Longrightarrow>
     (test_bit c (keybit s) \<longrightarrow> test_bit c (keybit s')) \<and>
     (test_bit c (upbit s) \<longrightarrow> test_bit c (upbit s'))"
  by (induction env ks s rule: scan_keys_up.induct)
     (auto simp: test_bit_set_bit_nr test_bit_or split: if_splits)

lemma scan_keys_up_sets:
  "scan_keys_up env ks s = Inr s' \<Longrightarrow> c \<in> set (listed ks) \<Longrightarrow>
     test_bit c (keybit s') \<and> test_bit c (upbit s')"
proof (induction env ks s rule: scan_keys_up.induct)
  case (1 env state)
  then show ?case by simp
next
  case (2 env k keyp state)
  show ?case
  proof (cases "k \<noteq> 0 \<and> 0 \<le> sint k \<and> sint k < int KEY_MAX \<and> c = nat (sint k)")
    case True
    let ?s1 = "state\<lparr>keybit := set_bit_nr (nat (sint k)) (keybit state),
                      upbit := set_bit_nr (nat (sint k)) (upbit state)\<rparr>"
    have "scan_keys_up env keyp ?s1 = Inr s'"
      using "2.prems"(1) True by simp
    moreover have "test_bit c (keybit ?s1)" "test_bit c (upbit ?s1)"
      using True by (auto simp add: test_bit_set_bit_nr KEY_MAX_def)
    ultimately show ?thesis
      using scan_keys_up_keeps [of env keyp ?s1 s' c] by simp
  next
    case False
    then have "k \<noteq> 0" and "c \<in> set (listed keyp)"
      using "2.prems"(2) by (auto simp: listed_Cons split: if_splits)
    then show ?thesis
      using "2.IH" "2.prems"(1) by (auto split: if_splits)
  qed
qed

text \<open>
  C7, as amended: a code that stands in both key lists is an up key of the constructed
  instance. At any later time an event that changes the state of that key moves \<open>key_up\<close>,
  up on a press and down on a release, and leaves \<open>key_down\<close> as it is.
\<close>

theorem key_in_both_lists_is_up_key:
  assumes pd: "probe_pdata env pdev = Inr pdata"
    and d: "unat code \<in> set (listed_down pdata)" and u: "unat code \<in> set (listed_up pdata)"
    and pr: "keycombo_probe env pdev = Inr state0"
    and s: "state = st (run (boot state0) actions)"
    and ch: "test_bit (unat code) (key state) = (val = 0)"
  shows "key_up (fst (keycombo_event state EV_KEY code val)) =
           (if val \<noteq> 0 then key_up state + 1 else key_up state - 1) \<and>
         key_down (fst (keycombo_event state EV_KEY code val)) = key_down state"
proof -
  have b: "unat code < KEY_MAX"
    using u by (auto simp: listed_up_def dest: listed_below split: option.splits)
  obtain ku where ku: "pd_keys_up pdata = Some ku" and lu: "unat code \<in> set (listed ku)"
    using u by (cases "pd_keys_up pdata") (auto simp: listed_up_def)
  obtain s1 s2 where "scan_keys_up env ku s1 = Inr s2"
    and "state0 = s2\<lparr>priv := pd_priv pdata, key_down_fn := pd_key_down_fn pdata,
                      key_up_fn := pd_key_up_fn pdata,
                      delay := msecs_to_jiffies env (pd_key_down_delay pdata)\<rparr>"
    using pr pd ku
    by (auto simp: keycombo_probe_def probe_keys_def split: sum.splits if_splits option.splits)
  then have "test_bit (unat code) (keybit state0)" "test_bit (unat code) (upbit state0)"
    using scan_keys_up_sets [of env ku s1 s2 "unat code"] lu by simp_all
  then have t: "test_bit (unat code) (keybit state)" "test_bit (unat code) (upbit state)"
    using bitmaps_run [of "boot state0" actions] s by (simp_all add: boot_def)
  have "fst (keycombo_event state EV_KEY code val) =
          fst (combo_transition
                 (count_key (state\<lparr>key := change_bit (unat code) (key state)\<rparr>) (unat code) val))"
    using b t ch by (simp add: keycombo_event_changed)
  then show ?thesis
    using t by (simp add: combo_transition_frame count_key_def)
qed

theorem key_in_both_lists_is_up_key_witness:
  "probe_pdata example_env (example_pdev example_pdata_both) = Inr example_pdata_both \<and>
   unat (116 :: 32 word) \<in> set (listed_down example_pdata_both) \<and>
   unat (116 :: 32 word) \<in> set (listed_up example_pdata_both) \<and>
   keycombo_probe example_env (example_pdev example_pdata_both) = Inr example_both \<and>
   key_up (fst (keycombo_event (st (run (boot example_both) [])) EV_KEY 116 1)) =
     key_up (st (run (boot example_both) [])) + 1 \<and>
   key_down (fst (keycombo_event (st (run (boot example_both) [])) EV_KEY 116 1)) =
     key_down (st (run (boot example_both) []))"
proof -
  have p: "probe_pdata example_env (example_pdev example_pdata_both) = Inr example_pdata_both"
    by (simp add: probe_pdata_def example_pdev_def)
  have l: "unat (116 :: 32 word) \<in> set (listed_down example_pdata_both)"
    "unat (116 :: 32 word) \<in> set (listed_up example_pdata_both)"
    by (simp_all add: listed_down_def listed_up_def listed_def example_pdata_both_def
        example_pdata_def KEY_MAX_def)
  have b: "keycombo_probe example_env (example_pdev example_pdata_both) = Inr example_both"
    by (simp add: keycombo_probe_def probe_pdata_def probe_keys_def example_pdev_def
      example_pdata_both_def example_pdata_def example_env_def
      example_both_def example_state_def zeroed_state_def KEY_MAX_def set_bit_nr_def)
  have c: "test_bit (unat (116 :: 32 word)) (key (st (run (boot example_both) []))) =
             ((1 :: 32 word) = 0)"
    by (simp add: example_both_def example_simps)
  show ?thesis
    using key_in_both_lists_is_up_key [OF p l b refl c] p l b by simp
qed

text \<open>
  C7 as stated fails: with the key 116 in both lists, pressing it leaves \<open>key_down\<close> at 0
  and raises \<open>key_up\<close> to 1.
\<close>

theorem key_in_both_lists_counterexample:
  "pd_keys_down example_pdata_both = Some [116, 0] \<and>
   pd_keys_up example_pdata_both = Some [116, 0] \<and>
   keycombo_probe example_env (example_pdev example_pdata_both) = Inr example_both \<and>
   key_down (fst (keycombo_event example_both EV_KEY 116 1)) = 0 \<and>
   key_up (fst (keycombo_event example_both EV_KEY 116 1)) = 1"
  by (simp add: keycombo_probe_def probe_pdata_def probe_keys_def example_pdev_def
      example_pdata_both_def example_pdata_def example_env_def
      example_both_def example_simps)

end
